theory Spec2Isabelle
  imports Complex_Main "HOL-Library.Multiset"
begin

section \<open>Data model\<close>

text \<open>
  A node of the mind map is a JavaScript object \<^verbatim>\<open>{ id, text, children }\<close>.
  The \<^verbatim>\<open>children\<close> property may be absent (every reader of the source guards it with
  \<^verbatim>\<open>node.children || []\<close>), so the field is optional here. JavaScript numbers are
  modelled as exact reals in the layout and in the viewport, and a second time with the
  rounding of doubles where the aspect ratio of the viewport is concerned.
\<close>

text \<open>The selectors \<open>nid\<close> and \<open>ntext\<close> stand for the properties \<^verbatim>\<open>id\<close> and \<^verbatim>\<open>text\<close>.\<close>

datatype node = Node (nid: string) (ntext: string) (children: "node list option")

text \<open>\<^verbatim>\<open>const children = node.children || [];\<close>\<close>

definition childrenOrEmpty :: "node \<Rightarrow> node list" where
  "childrenOrEmpty n = (case children n of None \<Rightarrow> [] | Some cs \<Rightarrow> cs)"

lemma childrenOrEmpty_Node [simp]:
  "childrenOrEmpty (Node i t None) = []"
  "childrenOrEmpty (Node i t (Some cs)) = cs"
  by (simp_all add: childrenOrEmpty_def)

lemma size_list_childrenOrEmpty: "size_list size (childrenOrEmpty n) < size n"
  by (cases n) (simp add: childrenOrEmpty_def split: option.splits)

lemma twice_size_list_childrenOrEmpty:
  "Suc (2 * size_list size (childrenOrEmpty n)) < 2 * size n"
  using size_list_childrenOrEmpty [of n] by simp

lemma size_childrenOrEmpty [termination_simp]:
  "c \<in> set (childrenOrEmpty n) \<Longrightarrow> size c < size n"
  using size_list_childrenOrEmpty [of n]
    size_list_estimation' [of c "childrenOrEmpty n" "size c" size]
  by simp

lemma size_childrenOrEmpty_Node [termination_simp]:
  "c \<in> set (childrenOrEmpty (Node i t co)) \<Longrightarrow> size c < Suc (size_option (size_list size) co)"
  using size_childrenOrEmpty [of c "Node i t co"] by simp

section \<open>Tree store (MindMapEditor.jsx)\<close>

text \<open>\<^verbatim>\<open>findNode\<close>: depth-first search; the \<^verbatim>\<open>for\<close> loop over the children is
  \<open>findNode_loop\<close>, which returns at the first child that yields a node.\<close>

function findNode :: "node \<Rightarrow> string \<Rightarrow> node option"
  and findNode_loop :: "node list \<Rightarrow> string \<Rightarrow> node option" where
  "findNode n i = (if nid n = i then Some n else findNode_loop (childrenOrEmpty n) i)"
| "findNode_loop [] i = None"
| "findNode_loop (c # cs) i =
     (case findNode c i of Some found \<Rightarrow> Some found | None \<Rightarrow> findNode_loop cs i)"
  by pat_completeness auto
termination
  by (relation "measure (\<lambda>s. case s of Inl (n, i) \<Rightarrow> 2 * size n
                                     | Inr (cs, i) \<Rightarrow> 2 * size_list size cs + 1)")
     (simp_all add: twice_size_list_childrenOrEmpty)

declare findNode.simps [simp del]

text \<open>\<^verbatim>\<open>isDescendant(node, potentialParentId)\<close>: does the id occur in the subtree of
  \<^verbatim>\<open>node\<close> (the node itself included).\<close>

function isDescendant :: "node \<Rightarrow> string \<Rightarrow> bool"
  and isDescendant_loop :: "node list \<Rightarrow> string \<Rightarrow> bool" where
  "isDescendant n p = (if nid n = p then True else isDescendant_loop (childrenOrEmpty n) p)"
| "isDescendant_loop [] p = False"
| "isDescendant_loop (c # cs) p = (if isDescendant c p then True else isDescendant_loop cs p)"
  by pat_completeness auto
termination
  by (relation "measure (\<lambda>s. case s of Inl (n, i) \<Rightarrow> 2 * size n
                                     | Inr (cs, i) \<Rightarrow> 2 * size_list size cs + 1)")
     (simp_all add: twice_size_list_childrenOrEmpty)

declare isDescendant.simps [simp del]

text \<open>\<^verbatim>\<open>updateRecursively\<close> of \<^verbatim>\<open>handleUpdateNode(id, newText)\<close>: the matching node
  keeps its \<^verbatim>\<open>children\<close> property as it is (\<^verbatim>\<open>{ ...node, text: newText }\<close>); every
  other node gets a \<^verbatim>\<open>children\<close> array.\<close>

fun updateRecursively :: "string \<Rightarrow> string \<Rightarrow> node \<Rightarrow> node" where
  "updateRecursively i newText (Node nodeId t co) =
     (if nodeId = i then Node nodeId newText co
      else Node nodeId t
             (Some (map (\<lambda>child. updateRecursively i newText child)
                      (childrenOrEmpty (Node nodeId t co)))))"

declare updateRecursively.simps [simp del]

text \<open>\<^verbatim>\<open>removeNode\<close> and \<^verbatim>\<open>addNode\<close> of \<^verbatim>\<open>handleReparentNode\<close>.\<close>

fun removeNode :: "node \<Rightarrow> string \<Rightarrow> node" where
  "removeNode (Node nodeId t co) i =
     Node nodeId t
       (Some (map (\<lambda>child. removeNode child i)
                (filter (\<lambda>child. nid child \<noteq> i) (childrenOrEmpty (Node nodeId t co)))))"

declare removeNode.simps [simp del]

fun addNode :: "node \<Rightarrow> string \<Rightarrow> node \<Rightarrow> node" where
  "addNode (Node nodeId t co) parentId nodeToAdd =
     (if nodeId = parentId
      then Node nodeId t (Some (childrenOrEmpty (Node nodeId t co) @ [nodeToAdd]))
      else Node nodeId t
             (Some (map (\<lambda>child. addNode child parentId nodeToAdd)
                      (childrenOrEmpty (Node nodeId t co)))))"

declare addNode.simps [simp del]

text \<open>\<^verbatim>\<open>handleReparentNode(draggedId, targetId)\<close>: the result is the tree held in
  \<^verbatim>\<open>data\<close> afterwards; an early \<^verbatim>\<open>return\<close> leaves \<^verbatim>\<open>data\<close> as it was.\<close>

definition handleReparentNode :: "node \<Rightarrow> string \<Rightarrow> string \<Rightarrow> node" where
  "handleReparentNode data draggedId targetId =
     (if draggedId = targetId \<or> draggedId = ''root'' then data
      else case findNode data draggedId of
             None \<Rightarrow> data
           | Some draggedNode \<Rightarrow>
               if isDescendant draggedNode targetId then data
               else addNode (removeNode data draggedId) targetId draggedNode)"

section \<open>Layout engine (calculatePositions of MindMapEditor.jsx)\<close>

definition NODE_WIDTH :: real where "NODE_WIDTH = 180"
definition NODE_HEIGHT :: real where "NODE_HEIGHT = 60"
definition H_SPACING :: real where "H_SPACING = 80"
definition V_SPACING :: real where "V_SPACING = 30"

record position =
  pos_x :: real
  pos_y :: real

text \<open>\<^verbatim>\<open>positions\<close> is a JavaScript \<^verbatim>\<open>Map\<close> from node id to \<^verbatim>\<open>{x, y}\<close>;
  \<^verbatim>\<open>positions.set\<close> is a map update, so a later entry for the same id wins.\<close>

type_synonym positions = "string \<rightharpoonup> position"

text \<open>\<^verbatim>\<open>children.length * (NODE_HEIGHT + V_SPACING) - V_SPACING\<close>\<close>

definition totalChildHeight :: "node list \<Rightarrow> real" where
  "totalChildHeight childNodes =
     real (length childNodes) * (NODE_HEIGHT + V_SPACING) - V_SPACING"

text \<open>\<^verbatim>\<open>calculatePositions(node, level, parentY)\<close>; the map is threaded through the
  calls, and \<^verbatim>\<open>children.forEach\<close> with its running \<^verbatim>\<open>currentY\<close> is
  \<open>calculatePositions_forEach\<close>.\<close>

function calculatePositions :: "node \<Rightarrow> nat \<Rightarrow> real \<Rightarrow> positions \<Rightarrow> positions"
  and calculatePositions_forEach :: "node list \<Rightarrow> nat \<Rightarrow> real \<Rightarrow> positions \<Rightarrow> positions" where
  "calculatePositions n level parentY positions =
     (let y = parentY;
          x = real level * (NODE_WIDTH + H_SPACING);
          positions = positions(nid n \<mapsto> \<lparr>pos_x = x, pos_y = y\<rparr>);
          childNodes = childrenOrEmpty n;
          currentY = y - totalChildHeight childNodes / 2
      in calculatePositions_forEach childNodes level currentY positions)"
| "calculatePositions_forEach [] level currentY positions = positions"
| "calculatePositions_forEach (child # rest) level currentY positions =
     (let childY = currentY + NODE_HEIGHT / 2;
          positions = calculatePositions child (level + 1) childY positions
      in calculatePositions_forEach rest level (currentY + (NODE_HEIGHT + V_SPACING)) positions)"
  by pat_completeness auto
termination
  by (relation "measure (\<lambda>s. case s of Inl (n, r) \<Rightarrow> 2 * size n
                                     | Inr (cs, r) \<Rightarrow> 2 * size_list size cs + 1)")
     (simp_all add: twice_size_list_childrenOrEmpty)

declare calculatePositions.simps [simp del]

text \<open>\<^verbatim>\<open>nodePositions\<close>: the memoised map for the tree in \<^verbatim>\<open>data\<close>.\<close>

definition nodePositions :: "node \<Rightarrow> positions" where
  "nodePositions data = calculatePositions data 0 0 Map.empty"

section \<open>Viewport (handleWheel and the pan branch of handleGlobalMouseMove)\<close>

record viewBox =
  vb_x :: real
  vb_y :: real
  vb_width :: real
  vb_height :: real

text \<open>The result of \<^verbatim>\<open>svg.getBoundingClientRect()\<close> and the fields of a wheel event
  that \<^verbatim>\<open>handleWheel\<close> reads.\<close>

record clientRect =
  rect_top :: real
  rect_left :: real
  rect_width :: real
  rect_height :: real

record wheelEvent =
  clientX :: real
  clientY :: real
  deltaY :: real

definition handleWheel :: "viewBox \<Rightarrow> wheelEvent \<Rightarrow> clientRect \<Rightarrow> viewBox" where
  "handleWheel viewBox e r =
     (let zoomFactor = 1.1;
          mouseX = vb_x viewBox + (clientX e - rect_left r) * (vb_width viewBox / rect_width r);
          mouseY = vb_y viewBox + (clientY e - rect_top r) * (vb_height viewBox / rect_height r);
          newWidth = (if deltaY e < 0 then vb_width viewBox / zoomFactor
                      else vb_width viewBox * zoomFactor);
          newHeight = (if deltaY e < 0 then vb_height viewBox / zoomFactor
                       else vb_height viewBox * zoomFactor)
      in \<lparr>vb_x = mouseX - (clientX e - rect_left r) * (newWidth / rect_width r),
          vb_y = mouseY - (clientY e - rect_top r) * (newHeight / rect_height r),
          vb_width = newWidth,
          vb_height = newHeight\<rparr>)"

text \<open>The conversion of a client point to viewBox coordinates that \<^verbatim>\<open>handleWheel\<close>
  applies to the pointer (\<^verbatim>\<open>mouseX\<close>, \<^verbatim>\<open>mouseY\<close>); the specification calls it
  \<^verbatim>\<open>screenToLogical\<close>.\<close>

definition screenToLogical :: "real \<times> real \<Rightarrow> clientRect \<Rightarrow> viewBox \<Rightarrow> real \<times> real" where
  "screenToLogical p r viewBox =
     (vb_x viewBox + (fst p - rect_left r) * (vb_width viewBox / rect_width r),
      vb_y viewBox + (snd p - rect_top r) * (vb_height viewBox / rect_height r))"

text \<open>The pan branch of \<^verbatim>\<open>handleGlobalMouseMove\<close>: the new viewBox for a pointer at
  \<open>(cx, cy)\<close>, the last pan position \<open>panStart\<close> and the client width of the svg.\<close>

definition panViewBox :: "viewBox \<Rightarrow> real \<times> real \<Rightarrow> real \<times> real \<Rightarrow> real \<Rightarrow> viewBox" where
  "panViewBox viewBox panStart c clientWidth =
     (let dx = fst c - fst panStart;
          dy = snd c - snd panStart;
          scale = vb_width viewBox / clientWidth
      in viewBox\<lparr>vb_x := vb_x viewBox - dx * scale, vb_y := vb_y viewBox - dy * scale\<rparr>)"

text \<open>A sequence of viewport operations, applied from left to right.\<close>

datatype viewportOp = Pan "real \<times> real" "real \<times> real" real | Zoom wheelEvent clientRect

fun applyViewportOp :: "viewBox \<Rightarrow> viewportOp \<Rightarrow> viewBox" where
  "applyViewportOp v (Pan panStart c clientWidth) = panViewBox v panStart c clientWidth"
| "applyViewportOp v (Zoom e r) = handleWheel v e r"

definition applyViewportOps :: "viewBox \<Rightarrow> viewportOp list \<Rightarrow> viewBox" where
  "applyViewportOps v ops = foldl applyViewportOp v ops"

section \<open>Viewport in double precision\<close>

text \<open>
  The numbers of the source are IEEE 754 binary64 values, and each arithmetic operation
  returns the exact result rounded to the nearest such value, ties to the even
  significand. A finite double is the real number it denotes. \<^verbatim>\<open>round64 x\<close> is the
  double nearest to the real \<open>x\<close>: with \<open>e\<close> the exponent of \<open>x\<close>, the multiple of
  \<open>2 powi (e - 52)\<close> nearest to \<open>x\<close>, and of two nearest ones the even multiple. The
  exponent is bounded below by \<open>- 1022\<close>, which gives the subnormal numbers and the
  rounding to 0; it is not bounded above, so a result beyond the greatest finite double
  is rounded like any other where the source gives \<^verbatim>\<open>Infinity\<close>. The values \<^verbatim>\<open>Infinity\<close> and
  \<^verbatim>\<open>NaN\<close> and the sign of zero are not modelled.
\<close>

text \<open>The number of binary digits of a natural number, and the binary exponent of a real
  \<open>x\<close> other than 0, which is the integer \<open>e\<close> with \<open>2 powi e \<le> \<bar>x\<bar>\<close> and
  \<open>\<bar>x\<bar> < 2 powi (e + 1)\<close>: for \<open>1 \<le> \<bar>x\<bar>\<close> one less than the number of digits of the
  integer part of \<open>\<bar>x\<bar>\<close>, and below 1 the negated exponent of the least power of two
  that is not below \<open>1 / \<bar>x\<bar>\<close>.\<close>

fun bitLength :: "nat \<Rightarrow> nat" where
  "bitLength n = (if n = 0 then 0 else Suc (bitLength (n div 2)))"

declare bitLength.simps [simp del]

definition binaryExponent :: "real \<Rightarrow> int" where
  "binaryExponent x =
     (if 1 \<le> \<bar>x\<bar> then int (bitLength (nat \<lfloor>\<bar>x\<bar>\<rfloor>)) - 1
      else - int (bitLength (nat (\<lceil>1 / \<bar>x\<bar>\<rceil> - 1))))"

text \<open>The exponent by which binary64 rounds \<open>x\<close>: the binary exponent of \<open>x\<close>, and for
  the subnormal numbers below \<open>2 powi (- 1022)\<close> the exponent \<open>- 1022\<close> of the least normal
  number.\<close>

definition exponent64 :: "real \<Rightarrow> int" where
  "exponent64 x = max (binaryExponent x) (- 1022)"

definition roundTiesToEven :: "real \<Rightarrow> int" where
  "roundTiesToEven r =
     (let f = \<lfloor>r\<rfloor>
      in if r - of_int f < 1 / 2 then f
         else if 1 / 2 < r - of_int f then f + 1
         else if even f then f else f + 1)"

definition round64 :: "real \<Rightarrow> real" where
  "round64 x =
     (if x = 0 then 0
      else of_int (roundTiesToEven (x * 2 powi (52 - exponent64 x))) * 2 powi (exponent64 x - 52))"

text \<open>The operators \<^verbatim>\<open>+\<close>, \<^verbatim>\<open>-\<close>, \<^verbatim>\<open>*\<close> and \<^verbatim>\<open>/\<close> on doubles.\<close>

definition add64 :: "real \<Rightarrow> real \<Rightarrow> real" where
  "add64 a b = round64 (a + b)"

definition sub64 :: "real \<Rightarrow> real \<Rightarrow> real" where
  "sub64 a b = round64 (a - b)"

definition mul64 :: "real \<Rightarrow> real \<Rightarrow> real" where
  "mul64 a b = round64 (a * b)"

definition div64 :: "real \<Rightarrow> real \<Rightarrow> real" where
  "div64 a b = round64 (a / b)"

text \<open>The literal \<^verbatim>\<open>1.1\<close> of \<^verbatim>\<open>const zoomFactor = 1.1\<close> is the double nearest to 11/10.\<close>

definition zoomFactor64 :: real where
  "zoomFactor64 = round64 (11 / 10)"

text \<open>\<^verbatim>\<open>handleWheel\<close> and the pan branch of \<^verbatim>\<open>handleGlobalMouseMove\<close> with the operators
  of the source on doubles, in the order in which the source applies them.\<close>

definition handleWheel64 :: "viewBox \<Rightarrow> wheelEvent \<Rightarrow> clientRect \<Rightarrow> viewBox" where
  "handleWheel64 viewBox e r =
     (let zoomFactor = zoomFactor64;
          mouseX = add64 (vb_x viewBox)
                     (mul64 (sub64 (clientX e) (rect_left r))
                            (div64 (vb_width viewBox) (rect_width r)));
          mouseY = add64 (vb_y viewBox)
                     (mul64 (sub64 (clientY e) (rect_top r))
                            (div64 (vb_height viewBox) (rect_height r)));
          newWidth = (if deltaY e < 0 then div64 (vb_width viewBox) zoomFactor
                      else mul64 (vb_width viewBox) zoomFactor);
          newHeight = (if deltaY e < 0 then div64 (vb_height viewBox) zoomFactor
                       else mul64 (vb_height viewBox) zoomFactor)
      in \<lparr>vb_x = sub64 mouseX (mul64 (sub64 (clientX e) (rect_left r))
                                     (div64 newWidth (rect_width r))),
          vb_y = sub64 mouseY (mul64 (sub64 (clientY e) (rect_top r))
                                     (div64 newHeight (rect_height r))),
          vb_width = newWidth,
          vb_height = newHeight\<rparr>)"

definition panViewBox64 :: "viewBox \<Rightarrow> real \<times> real \<Rightarrow> real \<times> real \<Rightarrow> real \<Rightarrow> viewBox" where
  "panViewBox64 viewBox panStart c clientWidth =
     (let dx = sub64 (fst c) (fst panStart);
          dy = sub64 (snd c) (snd panStart);
          scale = div64 (vb_width viewBox) clientWidth
      in viewBox\<lparr>vb_x := sub64 (vb_x viewBox) (mul64 dx scale),
                  vb_y := sub64 (vb_y viewBox) (mul64 dy scale)\<rparr>)"

fun applyViewportOp64 :: "viewBox \<Rightarrow> viewportOp \<Rightarrow> viewBox" where
  "applyViewportOp64 v (Pan panStart c clientWidth) = panViewBox64 v panStart c clientWidth"
| "applyViewportOp64 v (Zoom e r) = handleWheel64 v e r"

definition applyViewportOps64 :: "viewBox \<Rightarrow> viewportOp list \<Rightarrow> viewBox" where
  "applyViewportOps64 v ops = foldl applyViewportOp64 v ops"

section \<open>Editing in MindMapEditor.jsx (MindMapNode, handleUpdateNode)\<close>









datatype key = Enter | Escape | OtherKey


section \<open>Gestures in MindMapEditor.jsx\<close>

text \<open>The first version keeps the gestures in separate state variables: \<^verbatim>\<open>editingId\<close>,
  \<^verbatim>\<open>draggingNodeId\<close> with \<^verbatim>\<open>dropTargetId\<close>, and \<^verbatim>\<open>isPanning\<close>. Its handlers carry the
  suffix \<open>_1\<close> where the final version has a handler of the same name.\<close>

record gestures =
  g_editingId :: "string option"
  g_draggingNodeId :: "string option"
  g_dropTargetId :: "string option"
  g_isPanning :: bool

text \<open>\<^verbatim>\<open>onStartEdit={setEditingId}\<close>, called on a double click on a node.\<close>

definition onStartEdit :: "string \<Rightarrow> gestures \<Rightarrow> gestures" where
  "onStartEdit nodeId g = g\<lparr>g_editingId := Some nodeId\<rparr>"

text \<open>\<^verbatim>\<open>handleNodeMouseDown(e, nodeId)\<close>: \<^verbatim>\<open>if (nodeId !== 'root') setDraggingNodeId(nodeId)\<close>;
  the event does not reach the svg.\<close>

definition handleNodeMouseDown_1 :: "string \<Rightarrow> gestures \<Rightarrow> gestures" where
  "handleNodeMouseDown_1 nodeId g =
     (if nodeId \<noteq> ''root'' then g\<lparr>g_draggingNodeId := Some nodeId\<rparr> else g)"

text \<open>\<^verbatim>\<open>onMouseDown\<close> of the svg: \<^verbatim>\<open>setIsPanning(true)\<close>.\<close>

definition onMouseDown_svg :: "gestures \<Rightarrow> gestures" where
  "onMouseDown_svg g = g\<lparr>g_isPanning := True\<rparr>"

section \<open>Interaction state of the final version of the editor\<close>

text \<open>
  The second, later version of MindMapEditor.jsx keeps the gesture in \<^verbatim>\<open>interactionRef\<close>
  (\<^verbatim>\<open>{ type: 'none' | 'drag' | 'edit' | 'pan', startPos, nodeId }\<close>) and the edit in
  \<^verbatim>\<open>editingId\<close> and \<^verbatim>\<open>editedText\<close>. Each handler is a function from the state before
  to the state after; \<open>None\<close> stands for \<^verbatim>\<open>null\<close>.
\<close>

datatype interaction =
    Interaction_none
  | Interaction_drag "real \<times> real" string
  | Interaction_edit
  | Interaction_pan "real \<times> real"

record editorState =
  data :: "node option"
  viewBox :: viewBox
  selectedNodeId :: "string option"
  editingId :: "string option"
  editedText :: string
  dropTargetId :: "string option"
  ghostNode :: "(node \<times> (real \<times> real) option) option"
  interactionRef :: interaction

text \<open>JavaScript truthiness of a value that is \<^verbatim>\<open>null\<close> or a string: \<^verbatim>\<open>null\<close> and the
  empty string are falsy.\<close>

definition truthy :: "string option \<Rightarrow> bool" where
  "truthy v = (case v of None \<Rightarrow> False | Some str \<Rightarrow> str \<noteq> [])"

text \<open>\<^verbatim>\<open>findNode\<close> of this version starts with \<^verbatim>\<open>if (!node) return null\<close>.\<close>

definition findNode_nullable :: "node option \<Rightarrow> string \<Rightarrow> node option" where
  "findNode_nullable n i = (case n of None \<Rightarrow> None | Some m \<Rightarrow> findNode m i)"

text \<open>The arrow function \<^verbatim>\<open>update\<close> of the auto-save:
  \<^verbatim>\<open>n => n.id === editingId ? { ...n, text: editedText }
     : { ...n, children: (n.children || []).map(update) }\<close>\<close>

fun update :: "string \<Rightarrow> string \<Rightarrow> node \<Rightarrow> node" where
  "update eid txt (Node nodeId t co) =
     (if nodeId = eid then Node nodeId txt co
      else Node nodeId t (Some (map (\<lambda>child. update eid txt child)
                                 (childrenOrEmpty (Node nodeId t co)))))"

declare update.simps [simp del]

text \<open>The auto-save shared by \<^verbatim>\<open>handleBackgroundMouseDown\<close> and \<^verbatim>\<open>handleTextBlur\<close>: the
  tree after \<^verbatim>\<open>if (node && node.text !== editedText) setData(...)\<close>.\<close>

definition autoSave :: "editorState \<Rightarrow> string \<Rightarrow> node option" where
  "autoSave s eid =
     (case findNode_nullable (data s) eid of
        None \<Rightarrow> data s
      | Some n \<Rightarrow>
          if ntext n \<noteq> editedText s
          then (case data s of None \<Rightarrow> None | Some prev \<Rightarrow> Some (update eid (editedText s) prev))
          else data s)"

definition handleNodeMouseDown :: "real \<times> real \<Rightarrow> string \<Rightarrow> editorState \<Rightarrow> editorState" where
  "handleNodeMouseDown c nodeId s =
     s\<lparr>interactionRef := Interaction_drag c nodeId, selectedNodeId := Some nodeId\<rparr>"

definition handleNodeDoubleClick :: "string \<Rightarrow> editorState \<Rightarrow> editorState" where
  "handleNodeDoubleClick nodeId s =
     (let s1 = s\<lparr>interactionRef := Interaction_edit, ghostNode := None\<rparr>
      in case findNode_nullable (data s) nodeId of
           None \<Rightarrow> s1
         | Some n \<Rightarrow> s1\<lparr>editingId := Some nodeId, editedText := ntext n,
                         selectedNodeId := Some nodeId\<rparr>)"

definition handleBackgroundMouseDown :: "real \<times> real \<Rightarrow> editorState \<Rightarrow> editorState" where
  "handleBackgroundMouseDown c s =
     (let s1 = (if truthy (editingId s) then s\<lparr>data := autoSave s (the (editingId s))\<rparr> else s)
      in s1\<lparr>editingId := None, selectedNodeId := None, interactionRef := Interaction_pan c\<rparr>)"

text \<open>\<^verbatim>\<open>handleMouseMove\<close>: \<open>c\<close> is the client position, \<open>clientWidth\<close> the width of the svg
  and \<open>pt\<close> the pointer transformed by the inverse screen matrix of the svg
  (\<open>None\<close> when the browser gives no matrix).\<close>

definition handleMouseMove ::
  "real \<times> real \<Rightarrow> real \<Rightarrow> (real \<times> real) option \<Rightarrow> editorState \<Rightarrow> editorState" where
  "handleMouseMove c clientWidth pt s =
     (case interactionRef s of
        Interaction_none \<Rightarrow> s
      | Interaction_edit \<Rightarrow> s
      | Interaction_pan startPos \<Rightarrow>
          s\<lparr>viewBox := panViewBox (viewBox s) startPos c clientWidth,
            interactionRef := Interaction_pan c\<rparr>
      | Interaction_drag startPos nodeId \<Rightarrow>
          (let g = (if ghostNode s = None
                    then (case findNode_nullable (data s) nodeId of
                            None \<Rightarrow> None
                          | Some nodeData \<Rightarrow> Some (nodeData, None))
                    else ghostNode s)
           in case pt of
                None \<Rightarrow> s\<lparr>ghostNode := g\<rparr>
              | Some transformedPoint \<Rightarrow>
                  s\<lparr>ghostNode := map_option (\<lambda>prev. (fst prev, Some transformedPoint)) g\<rparr>))"

text \<open>The tree after the \<^verbatim>\<open>setData\<close> callback of \<^verbatim>\<open>handleMouseUp\<close>.\<close>

definition dropNode :: "node option \<Rightarrow> string \<Rightarrow> string \<Rightarrow> node option" where
  "dropNode prevData nodeId target =
     (case prevData of
        None \<Rightarrow> None
      | Some prev \<Rightarrow>
          (case findNode prev nodeId of
             None \<Rightarrow> Some prev
           | Some draggedNode \<Rightarrow>
               if isDescendant draggedNode target then Some prev
               else Some (addNode (removeNode prev nodeId) target draggedNode)))"

definition handleMouseUp :: "editorState \<Rightarrow> editorState" where
  "handleMouseUp s =
     (let s1 = (case interactionRef s of
                  Interaction_drag startPos nodeId \<Rightarrow>
                    if nodeId \<noteq> [] \<and> truthy (dropTargetId s) \<and> Some nodeId \<noteq> dropTargetId s
                    then s\<lparr>data := dropNode (data s) nodeId (the (dropTargetId s))\<rparr>
                    else s
                | _ \<Rightarrow> s)
      in s1\<lparr>interactionRef := Interaction_none, ghostNode := None, dropTargetId := None\<rparr>)"

definition handleTextBlur :: "editorState \<Rightarrow> editorState" where
  "handleTextBlur s =
     (if \<not> truthy (editingId s) then s
      else s\<lparr>data := autoSave s (the (editingId s)), editingId := None\<rparr>)"

text \<open>The events the component receives and their handlers.\<close>

datatype event =
    NodeMouseDown "real \<times> real" string
  | NodeDoubleClick string
  | BackgroundMouseDown "real \<times> real"
  | MouseMove "real \<times> real" real "(real \<times> real) option"
  | MouseUp
  | MouseLeave
  | NodeMouseOver string
  | NodeMouseOut
  | TextChange string
  | TextBlur
  | Wheel wheelEvent clientRect

fun dispatch :: "editorState \<Rightarrow> event \<Rightarrow> editorState" where
  "dispatch s (NodeMouseDown c nodeId) = handleNodeMouseDown c nodeId s"
| "dispatch s (NodeDoubleClick nodeId) = handleNodeDoubleClick nodeId s"
| "dispatch s (BackgroundMouseDown c) = handleBackgroundMouseDown c s"
| "dispatch s (MouseMove c clientWidth pt) = handleMouseMove c clientWidth pt s"
| "dispatch s MouseUp = handleMouseUp s"
| "dispatch s MouseLeave = handleMouseUp s"
| "dispatch s (NodeMouseOver nodeId) = s\<lparr>dropTargetId := Some nodeId\<rparr>"
| "dispatch s NodeMouseOut = s\<lparr>dropTargetId := None\<rparr>"
| "dispatch s (TextChange v) = s\<lparr>editedText := v\<rparr>"
| "dispatch s TextBlur = handleTextBlur s"
| "dispatch s (Wheel e r) = s\<lparr>viewBox := handleWheel (viewBox s) e r\<rparr>"

definition initialState :: "node option \<Rightarrow> editorState" where
  "initialState initialData =
     \<lparr>data = initialData,
      viewBox = \<lparr>vb_x = -200, vb_y = -400, vb_width = 1000, vb_height = 800\<rparr>,
      selectedNodeId = None, editingId = None, editedText = [],
      dropTargetId = None, ghostNode = None, interactionRef = Interaction_none\<rparr>"

definition run :: "editorState \<Rightarrow> event list \<Rightarrow> editorState" where
  "run s es = foldl dispatch s es"

text \<open>The gestures in progress in a state: panning and dragging by the type of
  \<^verbatim>\<open>interactionRef\<close>, editing by \<^verbatim>\<open>editingId\<close> (the textarea of that node is shown).\<close>

datatype gesture = Panning | Dragging | Editing

definition activeGestures :: "editorState \<Rightarrow> gesture list" where
  "activeGestures s =
     (case interactionRef s of
        Interaction_pan startPos \<Rightarrow> [Panning]
      | Interaction_drag startPos nodeId \<Rightarrow> [Dragging]
      | _ \<Rightarrow> []) @
     (if editingId s = None then [] else [Editing])"

section \<open>Vocabulary of the statements\<close>

text \<open>The nodes of a tree in depth-first order (the order in which \<^verbatim>\<open>findNode\<close> visits
  them), and their ids.\<close>

fun subtrees :: "node \<Rightarrow> node list" where
  "subtrees n = n # concat (map subtrees (childrenOrEmpty n))"

declare subtrees.simps [simp del]

definition ids :: "node \<Rightarrow> string list" where
  "ids T = map nid (subtrees T)"

text \<open>The nodes of a tree with their depth, the root at depth \<open>d\<close>.\<close>

fun withDepth :: "nat \<Rightarrow> node \<Rightarrow> (nat \<times> node) list" where
  "withDepth d n = (d, n) # concat (map (withDepth (Suc d)) (childrenOrEmpty n))"

declare withDepth.simps [simp del]

text \<open>A tree with every missing \<^verbatim>\<open>children\<close> property replaced by an empty array. Two trees
  are the same up to that representation when their normal forms are equal; a tree is its
  own normal form when every node carries a \<^verbatim>\<open>children\<close> array.\<close>

fun normalise :: "node \<Rightarrow> node" where
  "normalise (Node i t co) = Node i t (Some (map normalise (childrenOrEmpty (Node i t co))))"

declare normalise.simps [simp del]

definition sameTree :: "node \<Rightarrow> node \<Rightarrow> bool" where
  "sameTree T1 T2 = (normalise T1 = normalise T2)"

definition allChildrenPresent :: "node \<Rightarrow> bool" where
  "allChildrenPresent T = (normalise T = T)"

text \<open>What a tree says about the node named \<open>c\<close>: the ids of its children, in order, and
  its text.\<close>

definition childIds :: "node \<Rightarrow> string \<Rightarrow> string list" where
  "childIds T c = (case findNode T c of None \<Rightarrow> [] | Some m \<Rightarrow> map nid (childrenOrEmpty m))"

definition textOf :: "node \<Rightarrow> string \<Rightarrow> string option" where
  "textOf T c = map_option ntext (findNode T c)"

text \<open>\<open>b\<close> names a node in the subtree of a node named \<open>a\<close> (that node included).\<close>

definition descendantOf :: "node \<Rightarrow> string \<Rightarrow> string \<Rightarrow> bool" where
  "descendantOf T a b = (\<exists>n \<in> set (subtrees T). nid n = a \<and> b \<in> set (ids n))"

text \<open>The calls of \<^verbatim>\<open>calculatePositions\<close> in the order they are made: the node, its level
  and the \<^verbatim>\<open>parentY\<close> it is called with.\<close>

function calls :: "node \<Rightarrow> nat \<Rightarrow> real \<Rightarrow> (node \<times> nat \<times> real) list"
  and calls_forEach :: "node list \<Rightarrow> nat \<Rightarrow> real \<Rightarrow> (node \<times> nat \<times> real) list" where
  "calls n level parentY =
     (n, level, parentY) #
       calls_forEach (childrenOrEmpty n) level
         (parentY - totalChildHeight (childrenOrEmpty n) / 2)"
| "calls_forEach [] level currentY = []"
| "calls_forEach (child # rest) level currentY =
     calls child (level + 1) (currentY + NODE_HEIGHT / 2) @
     calls_forEach rest level (currentY + (NODE_HEIGHT + V_SPACING))"
  by pat_completeness auto
termination
  by (relation "measure (\<lambda>s. case s of Inl (n, r) \<Rightarrow> 2 * size n
                                     | Inr (cs, r) \<Rightarrow> 2 * size_list size cs + 1)")
     (simp_all add: twice_size_list_childrenOrEmpty)

declare calls.simps [simp del]

definition setPosition :: "node \<times> nat \<times> real \<Rightarrow> positions \<Rightarrow> positions" where
  "setPosition c ps =
     ps(nid (fst c) \<mapsto> \<lparr>pos_x = real (fst (snd c)) * (NODE_WIDTH + H_SPACING), pos_y = snd (snd c)\<rparr>)"

text \<open>The layout as the specification words it: the height of a sibling group is
  \<open>count * (nodeHeight + verticalSpacing) - verticalSpacing\<close>, and 0 for an empty group; the
  first slot starts at \<open>parentY - height / 2\<close>, every child is centred in its slot.\<close>

definition groupHeight :: "node list \<Rightarrow> real" where
  "groupHeight childNodes =
     (if childNodes = [] then 0
      else real (length childNodes) * (NODE_HEIGHT + V_SPACING) - V_SPACING)"

function computeLayout :: "node \<Rightarrow> nat \<Rightarrow> real \<Rightarrow> positions \<Rightarrow> positions"
  and computeLayout_group :: "node list \<Rightarrow> nat \<Rightarrow> real \<Rightarrow> positions \<Rightarrow> positions" where
  "computeLayout n d parentY positions =
     computeLayout_group (childrenOrEmpty n) d (parentY - groupHeight (childrenOrEmpty n) / 2)
       (positions(nid n \<mapsto> \<lparr>pos_x = real d * (NODE_WIDTH + H_SPACING), pos_y = parentY\<rparr>))"
| "computeLayout_group [] d slotStart positions = positions"
| "computeLayout_group (child # rest) d slotStart positions =
     computeLayout_group rest d (slotStart + (NODE_HEIGHT + V_SPACING))
       (computeLayout child (d + 1) (slotStart + NODE_HEIGHT / 2) positions)"
  by pat_completeness auto
termination
  by (relation "measure (\<lambda>s. case s of Inl (n, r) \<Rightarrow> 2 * size n
                                     | Inr (cs, r) \<Rightarrow> 2 * size_list size cs + 1)")
     (simp_all add: twice_size_list_childrenOrEmpty)

declare computeLayout.simps [simp del]

text \<open>The normal range of binary64: from the least normal number \<open>2 powi (- 1022)\<close> to
  the greatest finite number. The exact result of a zoom for a width or a height \<open>w\<close>,
  before it is rounded. A sequence of viewport operations stays in range when every
  zoom of it rounds a width and a height in the normal range; \<open>zooms\<close> counts the
  zooms of a sequence.\<close>

definition inRange64 :: "real \<Rightarrow> bool" where
  "inRange64 x \<longleftrightarrow> 2 powi (- 1022) \<le> \<bar>x\<bar> \<and> \<bar>x\<bar> \<le> (2 - 2 powi (- 52)) * 2 powi 1023"

definition scaled :: "real \<Rightarrow> wheelEvent \<Rightarrow> real" where
  "scaled w e = (if deltaY e < 0 then w / zoomFactor64 else w * zoomFactor64)"

fun zoomsInRange :: "viewBox \<Rightarrow> viewportOp list \<Rightarrow> bool" where
  "zoomsInRange v [] = True"
| "zoomsInRange v (Pan panStart c clientWidth # ops) =
     zoomsInRange (panViewBox64 v panStart c clientWidth) ops"
| "zoomsInRange v (Zoom e r # ops) =
     (inRange64 (scaled (vb_width v) e) \<and> inRange64 (scaled (vb_height v) e)
      \<and> zoomsInRange (handleWheel64 v e r) ops)"

fun zooms :: "viewportOp list \<Rightarrow> nat" where
  "zooms [] = 0"
| "zooms (Pan panStart c clientWidth # ops) = zooms ops"
| "zooms (Zoom e r # ops) = Suc (zooms ops)"

section \<open>Basic facts about trees\<close>

subsection \<open>Selectors of the rebuilt nodes\<close>

lemma removeNode_unfold:
  "removeNode n i = Node (nid n) (ntext n)
     (Some (map (\<lambda>child. removeNode child i) (filter (\<lambda>child. nid child \<noteq> i) (childrenOrEmpty n))))"
  by (cases n) (simp add: removeNode.simps childrenOrEmpty_def)

lemma addNode_unfold:
  "addNode n p x =
     (if nid n = p then Node (nid n) (ntext n) (Some (childrenOrEmpty n @ [x]))
      else Node (nid n) (ntext n) (Some (map (\<lambda>child. addNode child p x) (childrenOrEmpty n))))"
  by (cases n) (simp add: addNode.simps childrenOrEmpty_def)

lemma updateRecursively_unfold:
  "updateRecursively i t n =
     (if nid n = i then Node (nid n) t (children n)
      else Node (nid n) (ntext n) (Some (map (\<lambda>child. updateRecursively i t child) (childrenOrEmpty n))))"
  by (cases n) (simp add: updateRecursively.simps childrenOrEmpty_def)

lemma normalise_unfold:
  "normalise n = Node (nid n) (ntext n) (Some (map normalise (childrenOrEmpty n)))"
  by (cases n) (simp add: normalise.simps childrenOrEmpty_def)

lemma removeNode_sel [simp]:
  "nid (removeNode n i) = nid n"
  "ntext (removeNode n i) = ntext n"
  "childrenOrEmpty (removeNode n i) =
     map (\<lambda>child. removeNode child i) (filter (\<lambda>child. nid child \<noteq> i) (childrenOrEmpty n))"
  by (simp_all add: removeNode_unfold [of n])

lemma addNode_sel [simp]:
  "nid (addNode n p x) = nid n"
  "ntext (addNode n p x) = ntext n"
  "childrenOrEmpty (addNode n p x) =
     (if nid n = p then childrenOrEmpty n @ [x]
      else map (\<lambda>child. addNode child p x) (childrenOrEmpty n))"
  by (simp_all add: addNode_unfold [of n])

lemma updateRecursively_sel [simp]:
  "nid (updateRecursively i t n) = nid n"
  "ntext (updateRecursively i t n) = (if nid n = i then t else ntext n)"
  "childrenOrEmpty (updateRecursively i t n) =
     (if nid n = i then childrenOrEmpty n
      else map (\<lambda>child. updateRecursively i t child) (childrenOrEmpty n))"
  by (simp_all add: updateRecursively_unfold [of i t n] childrenOrEmpty_def)

lemma normalise_sel [simp]:
  "nid (normalise n) = nid n"
  "ntext (normalise n) = ntext n"
  "childrenOrEmpty (normalise n) = map normalise (childrenOrEmpty n)"
  "children (normalise n) = Some (map normalise (childrenOrEmpty n))"
  by (simp_all add: normalise_unfold [of n])

subsection \<open>Subtrees and ids\<close>

lemma ids_unfold: "ids n = nid n # concat (map ids (childrenOrEmpty n))"
proof -
  have "ids = (\<lambda>x. map nid (subtrees x))" by (simp add: ids_def fun_eq_iff)
  then show ?thesis by (simp add: ids_def subtrees.simps [of n] map_concat comp_def)
qed

lemma self_in_subtrees [simp]: "n \<in> set (subtrees n)"
  by (simp add: subtrees.simps [of n])

lemma nid_in_ids [simp]: "nid n \<in> set (ids n)"
  by (simp add: ids_def)

lemma subtrees_trans:
  "m \<in> set (subtrees n) \<Longrightarrow> k \<in> set (subtrees m) \<Longrightarrow> k \<in> set (subtrees n)"
proof (induction n rule: subtrees.induct)
  case (1 n)
  show ?case
  proof (cases "m = n")
    case True
    with 1 show ?thesis by simp
  next
    case False
    with 1 show ?thesis by (auto simp: subtrees.simps [of n])
  qed
qed

lemma child_in_subtrees: "c \<in> set (childrenOrEmpty n) \<Longrightarrow> c \<in> set (subtrees n)"
  by (simp add: subtrees.simps [of n]) (use self_in_subtrees in blast)

lemma subtrees_size: "m \<in> set (subtrees n) \<Longrightarrow> size m \<le> size n"
proof (induction n rule: subtrees.induct)
  case (1 n)
  show ?case
  proof (cases "m = n")
    case True
    then show ?thesis by simp
  next
    case False
    with 1(2) obtain c where c: "c \<in> set (childrenOrEmpty n)" "m \<in> set (subtrees c)"
      by (auto simp: subtrees.simps [of n])
    from 1(1) [OF c] size_childrenOrEmpty [OF c(1)] show ?thesis by simp
  qed
qed

lemma find_append:
  "find P (xs @ ys) = (case find P xs of None \<Rightarrow> find P ys | Some x \<Rightarrow> Some x)"
  by (induction xs) auto

lemma findNode_find:
  "findNode n i = find (\<lambda>m. nid m = i) (subtrees n)"
  "findNode_loop cs i = find (\<lambda>m. nid m = i) (concat (map subtrees cs))"
proof (induction n i and cs i rule: findNode_findNode_loop.induct)
  case (1 n i)
  then show ?case by (simp add: findNode.simps [of n] subtrees.simps [of n])
next
  case (2 i)
  then show ?case by simp
next
  case (3 c cs i)
  then show ?case by (simp add: find_append split: option.splits)
qed

lemma isDescendant_iff:
  "isDescendant n p \<longleftrightarrow> p \<in> set (ids n)"
  "isDescendant_loop cs p \<longleftrightarrow> p \<in> set (concat (map ids cs))"
proof (induction n p and cs p rule: isDescendant_isDescendant_loop.induct)
  case (1 n p)
  then show ?case by (simp add: isDescendant.simps [of n] ids_unfold [of n])
next
  case (2 p)
  then show ?case by simp
next
  case (3 c cs p)
  then show ?case by simp
qed

lemma findNode_None_iff: "findNode n i = None \<longleftrightarrow> i \<notin> set (ids n)"
  by (auto simp: findNode_find ids_def find_None_iff)

lemma findNode_Some_D:
  "findNode n i = Some m \<Longrightarrow> m \<in> set (subtrees n) \<and> nid m = i"
  by (auto simp: findNode_find find_Some_iff)

lemma find_distinct_key:
  "distinct (map f xs) \<Longrightarrow> x \<in> set xs \<Longrightarrow> find (\<lambda>y. f y = f x) xs = Some x"
  by (induction xs) (auto simp: image_iff)

lemma findNode_unique:
  "distinct (ids T) \<Longrightarrow> m \<in> set (subtrees T) \<Longrightarrow> findNode T (nid m) = Some m"
  by (simp add: findNode_find ids_def find_distinct_key)

lemma distinct_ids_child:
  "distinct (ids n) \<Longrightarrow> c \<in> set (childrenOrEmpty n) \<Longrightarrow> distinct (ids c)"
  by (auto simp: ids_unfold [of n] distinct_concat_iff)

subsection \<open>Normal forms\<close>

lemma node_induct [case_names Node]:
  assumes "\<And>i t co. (\<And>c. c \<in> set (childrenOrEmpty (Node i t co)) \<Longrightarrow> P c) \<Longrightarrow> P (Node i t co)"
  shows "P n"
proof (induction n rule: subtrees.induct)
  case (1 n)
  then show ?case using assms [of "nid n" "ntext n" "children n"] by simp
qed

lemma subtrees_normalise: "subtrees (normalise n) = map normalise (subtrees n)"
proof (induction n rule: node_induct)
  case (Node i t co)
  then show ?case
    by (simp add: subtrees.simps [of "Node i t co"] subtrees.simps [of "Node i t (Some _)"]
          normalise.simps map_concat comp_def cong: map_cong)
qed

lemma ids_normalise [simp]: "ids (normalise n) = ids n"
  by (simp add: ids_def subtrees_normalise comp_def)

lemma normalise_idem [simp]: "normalise (normalise n) = normalise n"
proof (induction n rule: node_induct)
  case (Node i t co)
  then show ?case by (simp add: normalise.simps cong: map_cong)
qed

lemma find_map: "find P (map f xs) = map_option f (find (P \<circ> f) xs)"
  by (induction xs) auto

lemma findNode_normalise: "findNode (normalise n) i = map_option normalise (findNode n i)"
  by (simp add: findNode_find subtrees_normalise find_map comp_def)

lemma isDescendant_normalise: "isDescendant (normalise n) p = isDescendant n p"
  by (simp add: isDescendant_iff)

lemma totalChildHeight_map [simp]: "totalChildHeight (map f cs) = totalChildHeight cs"
  by (simp add: totalChildHeight_def)

lemma calculatePositions_normalise:
  "calculatePositions (normalise n) l y ps = calculatePositions n l y ps"
  "calculatePositions_forEach (map normalise cs) l cy ps = calculatePositions_forEach cs l cy ps"
proof (induction n l y ps and cs l cy ps rule: calculatePositions_calculatePositions_forEach.induct)
  case (1 n level parentY positions)
  show ?case
    unfolding calculatePositions.simps [of n level parentY positions]
      calculatePositions.simps [of "normalise n" level parentY positions] Let_def
      normalise_sel totalChildHeight_map
    by (rule 1 [OF refl refl refl refl refl])
next
  case (2 level currentY positions)
  then show ?case by simp
next
  case (3 child rest level currentY positions)
  then show ?case by (simp add: Let_def)
qed

lemma updateRecursively_normalise:
  "normalise (updateRecursively i t n) = updateRecursively i t (normalise n)"
proof (induction n rule: node_induct)
  case (Node j u co)
  then show ?case
    by (simp add: updateRecursively.simps normalise.simps childrenOrEmpty_def cong: map_cong)
qed

lemma removeNode_normalise:
  "normalise (removeNode n i) = removeNode (normalise n) i"
proof (induction n rule: node_induct)
  case (Node j u co)
  then show ?case
    by (simp add: removeNode.simps normalise.simps filter_map comp_def cong: map_cong)
qed

lemma addNode_normalise:
  "normalise (addNode n p x) = addNode (normalise n) p (normalise x)"
proof (induction n rule: node_induct)
  case (Node j u co)
  then show ?case
    by (simp add: addNode.simps normalise.simps cong: map_cong)
qed

lemma handleReparentNode_normalise:
  "normalise (handleReparentNode T a b) = handleReparentNode (normalise T) a b"
  by (simp add: handleReparentNode_def findNode_normalise isDescendant_normalise
        removeNode_normalise addNode_normalise split: option.splits)

subsection \<open>Operations that find nothing to do\<close>

lemma subtrees_Node:
  "subtrees (Node i t co) = Node i t co # concat (map subtrees (childrenOrEmpty (Node i t co)))"
  by (rule subtrees.simps)

lemma ids_Node:
  "ids (Node i t co) = i # concat (map ids (childrenOrEmpty (Node i t co)))"
  using ids_unfold [of "Node i t co"] by simp

lemma withDepth_Node:
  "withDepth d (Node i t co)
     = (d, Node i t co) # concat (map (withDepth (Suc d)) (childrenOrEmpty (Node i t co)))"
  by (rule withDepth.simps)

lemma removeNode_absent:
  "i \<notin> set (concat (map ids (childrenOrEmpty n))) \<Longrightarrow> removeNode n i = normalise n"
proof (induction n rule: node_induct)
  case (Node j u co)
  have keep: "filter (\<lambda>child. nid child \<noteq> i) (childrenOrEmpty (Node j u co)) = childrenOrEmpty (Node j u co)"
    using Node.prems nid_in_ids by (auto simp: filter_id_conv)
  have "removeNode c i = normalise c" if "c \<in> set (childrenOrEmpty (Node j u co))" for c
  proof (rule Node.IH [OF that])
    show "i \<notin> set (concat (map ids (childrenOrEmpty c)))"
      using Node.prems that ids_unfold [of c] by auto
  qed
  then show ?case
    by (simp add: removeNode.simps normalise.simps keep cong: map_cong)
qed

lemma addNode_absent:
  "p \<notin> set (ids n) \<Longrightarrow> addNode n p x = normalise n"
proof (induction n rule: node_induct)
  case (Node j u co)
  have "addNode c p x = normalise c" if "c \<in> set (childrenOrEmpty (Node j u co))" for c
    using Node.prems that by (intro Node.IH) (auto simp: ids_unfold [of "Node j u co"])
  moreover have "j \<noteq> p" using Node.prems by (auto simp: ids_unfold [of "Node j u co"])
  ultimately show ?case
    by (simp add: addNode.simps normalise.simps cong: map_cong)
qed

lemma findNode_root: "findNode T (nid T) = Some T"
  by (simp add: findNode.simps)

lemma reparent_root:
  assumes "distinct (ids T)"
  shows "handleReparentNode T (nid T) b = T \<or>
         (b \<notin> set (ids T) \<and> handleReparentNode T (nid T) b = normalise T)"
proof (cases "nid T = b \<or> nid T = ''root'' \<or> isDescendant T b")
  case True
  then show ?thesis by (auto simp: handleReparentNode_def findNode_root)
next
  case False
  then have b: "b \<notin> set (ids T)" by (simp add: isDescendant_iff)
  from assms have "nid T \<notin> set (concat (map ids (childrenOrEmpty T)))"
    by (simp add: ids_unfold [of T])
  then have "removeNode T (nid T) = normalise T" by (rule removeNode_absent)
  moreover from b have "addNode (normalise T) b T = normalise (normalise T)"
    by (intro addNode_absent) simp
  ultimately show ?thesis using False b
    by (simp add: handleReparentNode_def findNode_root)
qed

lemma reparent_descendant:
  assumes "distinct (ids T)" and "descendantOf T a b"
  shows "handleReparentNode T a b = T"
proof -
  from assms(2) obtain n where n: "n \<in> set (subtrees T)" "nid n = a" "b \<in> set (ids n)"
    by (auto simp: descendantOf_def)
  from findNode_unique [OF assms(1) n(1)] n(2) have "findNode T a = Some n" by simp
  with n(3) show ?thesis by (simp add: handleReparentNode_def isDescendant_iff)
qed

subsection \<open>Detaching a subtree\<close>

lemma set_ids_concat:
  "set (concat (map ids cs)) = nid ` set (concat (map subtrees cs))"
  by (auto simp: ids_def)

lemma findNode_loop_None_iff:
  "findNode_loop cs i = None \<longleftrightarrow> i \<notin> set (concat (map ids cs))"
  unfolding findNode_find(2) find_None_iff set_ids_concat by auto

lemma findNode_Some_in_ids: "findNode c i = Some n \<Longrightarrow> i \<in> set (ids c)"
  using findNode_None_iff [of c i] by auto

lemma subtrees_removeNode:
  "r \<in> set (subtrees (removeNode T a)) \<Longrightarrow> \<exists>m \<in> set (subtrees T). r = removeNode m a"
proof (induction T arbitrary: r rule: subtrees.induct)
  case (1 n)
  show ?case
  proof (cases "r = removeNode n a")
    case True
    then show ?thesis by auto
  next
    case False
    with 1(2) obtain c where c: "c \<in> set (childrenOrEmpty n)" "r \<in> set (subtrees (removeNode c a))"
      by (auto simp: subtrees.simps [of "removeNode n a"])
    from 1(1) [OF c] obtain m where "m \<in> set (subtrees c)" "r = removeNode m a" by auto
    with c(1) show ?thesis by (auto intro: subtrees_trans child_in_subtrees)
  qed
qed

lemma removeNode_ids_list:
  assumes "distinct (concat (map ids cs))"
    and "\<And>c. c \<in> set cs \<Longrightarrow> nid c \<noteq> a \<Longrightarrow>
           mset (ids (removeNode c a)) + (case findNode c a of None \<Rightarrow> {#} | Some n \<Rightarrow> mset (ids n))
             = mset (ids c)"
  shows "mset (concat (map (\<lambda>c. ids (removeNode c a)) (filter (\<lambda>c. nid c \<noteq> a) cs)))
           + (case findNode_loop cs a of None \<Rightarrow> {#} | Some n \<Rightarrow> mset (ids n))
         = mset (concat (map ids cs))"
  using assms
proof (induction cs)
  case Nil
  then show ?case by simp
next
  case (Cons c cs)
  from Cons.prems(1) have d: "distinct (concat (map ids cs))"
    and disj: "set (ids c) \<inter> set (concat (map ids cs)) = {}"
    by auto
  have IH: "mset (concat (map (\<lambda>c. ids (removeNode c a)) (filter (\<lambda>c. nid c \<noteq> a) cs)))
           + (case findNode_loop cs a of None \<Rightarrow> {#} | Some n \<Rightarrow> mset (ids n))
         = mset (concat (map ids cs))"
    by (rule Cons.IH [OF d]) (simp add: Cons.prems(2))
  show ?case
  proof (cases "nid c = a")
    case True
    then have "a \<in> set (ids c)" using nid_in_ids [of c] by simp
    with disj have "findNode_loop cs a = None" by (auto simp: findNode_loop_None_iff)
    with IH True show ?thesis by (simp add: findNode.simps [of c])
  next
    case False
    note node = Cons.prems(2) [of c, OF _ False, simplified]
    show ?thesis
    proof (cases "findNode c a")
      case None
      with node IH False show ?thesis by simp
    next
      case (Some n)
      then have "a \<in> set (ids c)" by (rule findNode_Some_in_ids)
      with disj have "findNode_loop cs a = None" by (auto simp: findNode_loop_None_iff)
      with node IH False Some show ?thesis by (simp add: ac_simps)
    qed
  qed
qed

lemma removeNode_ids:
  "distinct (ids T) \<Longrightarrow> nid T \<noteq> a \<Longrightarrow>
   mset (ids (removeNode T a)) + (case findNode T a of None \<Rightarrow> {#} | Some n \<Rightarrow> mset (ids n))
     = mset (ids T)"
proof (induction T rule: subtrees.induct)
  case (1 T)
  from 1(2) have d: "distinct (concat (map ids (childrenOrEmpty T)))"
    by (simp add: ids_unfold [of T])
  have "mset (concat (map (\<lambda>c. ids (removeNode c a)) (filter (\<lambda>c. nid c \<noteq> a) (childrenOrEmpty T))))
           + (case findNode_loop (childrenOrEmpty T) a of None \<Rightarrow> {#} | Some n \<Rightarrow> mset (ids n))
         = mset (concat (map ids (childrenOrEmpty T)))"
  proof (rule removeNode_ids_list [OF d])
    fix c assume "c \<in> set (childrenOrEmpty T)" "nid c \<noteq> a"
    then show "mset (ids (removeNode c a)) + (case findNode c a of None \<Rightarrow> {#} | Some n \<Rightarrow> mset (ids n))
             = mset (ids c)"
      using 1(1) [of c] distinct_ids_child [OF 1(2)] by simp
  qed
  then show ?case
    using 1(3)
    by (simp add: ids_unfold [of "removeNode T a"] ids_unfold [of T] findNode.simps [of T]
          comp_def)
qed

subsection \<open>Attaching a subtree\<close>

lemma addNode_ids_list:
  assumes "distinct (concat (map ids cs))"
    and "\<And>c. c \<in> set cs \<Longrightarrow>
           mset (ids (addNode c b x)) = mset (ids c) + (if b \<in> set (ids c) then mset (ids x) else {#})"
  shows "mset (concat (map (\<lambda>c. ids (addNode c b x)) cs))
         = mset (concat (map ids cs))
           + (if b \<in> set (concat (map ids cs)) then mset (ids x) else {#})"
  using assms
proof (induction cs)
  case Nil
  then show ?case by simp
next
  case (Cons c cs)
  from Cons.prems(1) have d: "distinct (concat (map ids cs))"
    and disj: "set (ids c) \<inter> set (concat (map ids cs)) = {}"
    by auto
  have IH: "mset (concat (map (\<lambda>c. ids (addNode c b x)) cs))
         = mset (concat (map ids cs))
           + (if b \<in> set (concat (map ids cs)) then mset (ids x) else {#})"
    by (rule Cons.IH [OF d]) (simp add: Cons.prems(2))
  from disj have "\<not> (b \<in> set (ids c) \<and> b \<in> set (concat (map ids cs)))" by auto
  with IH Cons.prems(2) [of c] show ?case by (auto simp: ac_simps)
qed

lemma addNode_ids:
  "distinct (ids R) \<Longrightarrow>
   mset (ids (addNode R b x)) = mset (ids R) + (if b \<in> set (ids R) then mset (ids x) else {#})"
proof (induction R rule: subtrees.induct)
  case (1 R)
  show ?case
  proof (cases "nid R = b")
    case True
    then show ?thesis
      by (simp add: ids_unfold [of "addNode R b x"] ids_unfold [of R])
  next
    case False
    from 1(2) have d: "distinct (concat (map ids (childrenOrEmpty R)))"
      by (simp add: ids_unfold [of R])
    have "mset (concat (map (\<lambda>c. ids (addNode c b x)) (childrenOrEmpty R)))
         = mset (concat (map ids (childrenOrEmpty R)))
           + (if b \<in> set (concat (map ids (childrenOrEmpty R))) then mset (ids x) else {#})"
      by (rule addNode_ids_list [OF d]) (use 1 distinct_ids_child in blast)
    with False show ?thesis
      by (simp add: ids_unfold [of "addNode R b x"] ids_unfold [of R] comp_def)
  qed
qed

lemma added_in_subtrees:
  "b \<in> set (ids R) \<Longrightarrow> x \<in> set (subtrees (addNode R b x))"
proof (induction R rule: subtrees.induct)
  case (1 R)
  show ?case
  proof (cases "nid R = b")
    case True
    then show ?thesis by (simp add: subtrees.simps [of "addNode R b x"])
  next
    case False
    with 1(2) obtain c where "c \<in> set (childrenOrEmpty R)" "b \<in> set (ids c)"
      by (auto simp: ids_unfold [of R])
    with 1(1) False show ?thesis
      by (auto simp: subtrees.simps [of "addNode R b x"])
  qed
qed

lemma subtrees_addNode:
  "distinct (ids R) \<Longrightarrow> m' \<in> set (subtrees (addNode R b x)) \<Longrightarrow>
   m' \<in> set (subtrees x) \<or>
   (\<exists>r \<in> set (subtrees R). nid m' = nid r \<and> ntext m' = ntext r \<and>
      map nid (childrenOrEmpty m') = map nid (childrenOrEmpty r) @ (if nid r = b then [nid x] else []))"
proof (induction R arbitrary: m' rule: subtrees.induct)
  case (1 R)
  show ?case
  proof (cases "m' = addNode R b x")
    case True
    then show ?thesis
      by (intro disjI2 bexI [of _ R]) (simp_all add: comp_def)
  next
    case top: False
    show ?thesis
    proof (cases "nid R = b")
      case True
      with top 1(3) consider "m' \<in> set (subtrees x)"
        | c where "c \<in> set (childrenOrEmpty R)" "m' \<in> set (subtrees c)"
        by (auto simp: subtrees.simps [of "addNode R b x"])
      then show ?thesis
      proof cases
        case 1
        then show ?thesis by simp
      next
        case 2
        then have in_R: "m' \<in> set (subtrees R)"
          by (auto intro: subtrees_trans child_in_subtrees)
        from 2 have "nid m' \<in> set (concat (map ids (childrenOrEmpty R)))"
          by (auto simp: ids_def)
        with \<open>distinct (ids R)\<close> True have "nid m' \<noteq> b"
          by (auto simp: ids_unfold [of R])
        with in_R show ?thesis by (intro disjI2 bexI [of _ m']) simp_all
      qed
    next
      case False
      with top 1(3) obtain c where c: "c \<in> set (childrenOrEmpty R)"
        "m' \<in> set (subtrees (addNode c b x))"
        by (auto simp: subtrees.simps [of "addNode R b x"])
      from 1(1) [OF c(1) distinct_ids_child [OF 1(2) c(1)] c(2)]
      show ?thesis
      proof
        assume "m' \<in> set (subtrees x)"
        then show ?thesis by simp
      next
        assume "\<exists>r \<in> set (subtrees c). nid m' = nid r \<and> ntext m' = ntext r \<and>
          map nid (childrenOrEmpty m') = map nid (childrenOrEmpty r) @ (if nid r = b then [nid x] else [])"
        then obtain r where r: "r \<in> set (subtrees c)" "nid m' = nid r \<and> ntext m' = ntext r \<and>
          map nid (childrenOrEmpty m') = map nid (childrenOrEmpty r) @ (if nid r = b then [nid x] else [])"
          by blast
        from r(1) c(1) have "r \<in> set (subtrees R)"
          by (blast intro: subtrees_trans child_in_subtrees)
        with r(2) show ?thesis by blast
      qed
    qed
  qed
qed

lemma child_not_ancestor:
  assumes "m \<in> set (subtrees n)" and "c \<in> set (childrenOrEmpty m)"
  shows "c \<noteq> n"
  using subtrees_size [OF assms(1)] size_childrenOrEmpty [OF assms(2)] by auto

lemma childIds_textOf_unique:
  assumes "distinct (ids T)" and "m \<in> set (subtrees T)"
  shows "childIds T (nid m) = map nid (childrenOrEmpty m)" and "textOf T (nid m) = Some (ntext m)"
  using findNode_unique [OF assms] by (simp_all add: childIds_def textOf_def)

lemma childIds_textOf_absent:
  assumes "c \<notin> set (ids T)"
  shows "childIds T c = []" and "textOf T c = None"
  using assms findNode_None_iff [of T c] by (simp_all add: childIds_def textOf_def)

lemma reparent_structure:
  assumes dT: "distinct (ids T)" and ab: "a \<noteq> b" and found: "findNode T a = Some n"
    and nd: "\<not> isDescendant n b" and bT: "b \<in> set (ids T)"
  defines "T' \<equiv> addNode (removeNode T a) b n"
  shows "nid T' = nid T"
    and "mset (ids T') = mset (ids T)"
    and "findNode T' a = Some n"
    and "childIds T' c = filter (\<lambda>k. k \<noteq> a) (childIds T c) @ (if c = b then [a] else [])"
    and "textOf T' c = textOf T c"
proof -
  let ?R = "removeNode T a"
  from findNode_Some_D [OF found] have n: "n \<in> set (subtrees T)" "nid n = a" by simp_all
  from nd have bn: "b \<notin> set (ids n)" by (simp add: isDescendant_iff)
  have root: "nid T \<noteq> a"
  proof
    assume "nid T = a"
    with found have "n = T" by (simp add: findNode.simps [of T])
    with bT bn show False by simp
  qed
  from removeNode_ids [OF dT root] found
  have msetR: "mset (ids ?R) + mset (ids n) = mset (ids T)" by simp
  then have "mset (ids ?R @ ids n) = mset (ids T)" by simp
  from mset_eq_imp_distinct_iff [OF this] dT have dRn: "distinct (ids ?R @ ids n)" by simp
  then have dR: "distinct (ids ?R)" by simp
  from msetR have "set_mset (mset (ids ?R) + mset (ids n)) = set_mset (mset (ids T))" by simp
  then have sets: "set (ids ?R) \<union> set (ids n) = set (ids T)" by simp
  with bT bn have bR: "b \<in> set (ids ?R)" by auto
  show "nid T' = nid T" by (simp add: T'_def)
  from addNode_ids [OF dR, of b n] bR msetR
  show msetT': "mset (ids T') = mset (ids T)" by (simp add: T'_def)
  from mset_eq_imp_distinct_iff [OF msetT'] dT have dT': "distinct (ids T')" by simp
  from mset_eq_setD [OF msetT'] have setT': "set (ids T') = set (ids T)" .
  from added_in_subtrees [OF bR, of n] have "n \<in> set (subtrees T')" by (simp add: T'_def)
  from findNode_unique [OF dT' this] n(2) show "findNode T' a = Some n" by simp
  have star: "\<exists>m \<in> set (subtrees T). nid m = nid m' \<and> ntext m' = ntext m \<and>
      map nid (childrenOrEmpty m') =
        filter (\<lambda>k. k \<noteq> a) (map nid (childrenOrEmpty m)) @ (if nid m = b then [a] else [])"
    if m': "m' \<in> set (subtrees T')" for m'
  proof -
    from subtrees_addNode [OF dR m' [unfolded T'_def]]
    show ?thesis
    proof
      assume in_n: "m' \<in> set (subtrees n)"
      then have in_T: "m' \<in> set (subtrees T)" using n(1) by (blast intro: subtrees_trans)
      have "nid k \<noteq> a" if k: "k \<in> set (childrenOrEmpty m')" for k
      proof
        assume "nid k = a"
        from k in_T have "k \<in> set (subtrees T)"
          by (blast intro: subtrees_trans child_in_subtrees)
        from findNode_unique [OF dT this] \<open>nid k = a\<close> found have "k = n" by simp
        with child_not_ancestor [OF in_n k] show False by simp
      qed
      then have "filter (\<lambda>k. k \<noteq> a) (map nid (childrenOrEmpty m')) = map nid (childrenOrEmpty m')"
        by (auto simp: filter_id_conv)
      moreover from in_n bn have "nid m' \<noteq> b" by (auto simp: ids_def)
      ultimately show ?thesis using in_T by (intro bexI [of _ m']) simp_all
    next
      assume "\<exists>r \<in> set (subtrees ?R). nid m' = nid r \<and> ntext m' = ntext r \<and>
        map nid (childrenOrEmpty m') = map nid (childrenOrEmpty r) @ (if nid r = b then [nid n] else [])"
      then obtain r where r: "r \<in> set (subtrees ?R)" "nid m' = nid r" "ntext m' = ntext r"
        "map nid (childrenOrEmpty m') = map nid (childrenOrEmpty r) @ (if nid r = b then [nid n] else [])"
        by blast
      from subtrees_removeNode [OF r(1)] obtain m where m: "m \<in> set (subtrees T)" "r = removeNode m a"
        by blast
      have "map nid (childrenOrEmpty r) = filter (\<lambda>k. k \<noteq> a) (map nid (childrenOrEmpty m))"
        by (simp add: m(2) filter_map comp_def)
      with r m n(2) show ?thesis by (intro bexI [of _ m]) simp_all
    qed
  qed
  show "childIds T' c = filter (\<lambda>k. k \<noteq> a) (childIds T c) @ (if c = b then [a] else [])"
    and "textOf T' c = textOf T c"
  proof -
    have "childIds T' c = filter (\<lambda>k. k \<noteq> a) (childIds T c) @ (if c = b then [a] else [])
        \<and> textOf T' c = textOf T c"
    proof (cases "c \<in> set (ids T)")
      case False
      with setT' have "c \<notin> set (ids T')" by simp
      with False bT show ?thesis by (auto simp: childIds_textOf_absent)
    next
      case True
      with setT' have "c \<in> set (ids T')" by simp
      then obtain m' where m': "m' \<in> set (subtrees T')" "nid m' = c" by (auto simp: ids_def)
      from star [OF m'(1)] obtain m where m: "m \<in> set (subtrees T)" "nid m = nid m'"
        "ntext m' = ntext m"
        "map nid (childrenOrEmpty m') =
          filter (\<lambda>k. k \<noteq> a) (map nid (childrenOrEmpty m)) @ (if nid m = b then [a] else [])"
        by blast
      from childIds_textOf_unique [OF dT' m'(1)] childIds_textOf_unique [OF dT m(1)] m m'(2)
      show ?thesis by simp
    qed
    then show "childIds T' c = filter (\<lambda>k. k \<noteq> a) (childIds T c) @ (if c = b then [a] else [])"
      and "textOf T' c = textOf T c" by simp_all
  qed
qed

section \<open>Reparenting\<close>

subsection \<open>Reparenting onto an id that names no node\<close>


subsection \<open>The guards\<close>

text \<open>
  C2. If \<open>b\<close> is a descendant of \<open>a\<close>, or \<open>b = a\<close>, or \<open>a\<close> is the root, then
  \<^verbatim>\<open>handleReparentNode\<close> leaves the tree structurally unchanged. Ids are unique, as the
  data model says. The result is the very same tree whenever every node carries a
  \<^verbatim>\<open>children\<close> array, and also whenever the root is named \<^verbatim>\<open>root\<close> or \<open>b\<close> names a
  node; in the one remaining case (a root with another id, a target that names no node)
  the tree is rebuilt with the same nodes, texts and child order.
\<close>

theorem reparent_guards_leave_tree:
  assumes "distinct (ids T)" and "descendantOf T a b \<or> b = a \<or> a = nid T"
  shows "sameTree (handleReparentNode T a b) T
       \<and> (allChildrenPresent T \<longrightarrow> handleReparentNode T a b = T)
       \<and> (a = ''root'' \<or> b \<in> set (ids T) \<longrightarrow> handleReparentNode T a b = T)"
proof -
  consider "b = a" | "descendantOf T a b" | "a = nid T" using assms(2) by blast
  then have "handleReparentNode T a b = T \<or>
     (a \<noteq> ''root'' \<and> b \<notin> set (ids T) \<and> handleReparentNode T a b = normalise T)"
  proof cases
    case 1
    then show ?thesis by (simp add: handleReparentNode_def)
  next
    case 2
    then show ?thesis by (simp add: reparent_descendant [OF assms(1)])
  next
    case 3
    show ?thesis
    proof (cases "a = ''root''")
      case True
      then show ?thesis by (simp add: handleReparentNode_def)
    next
      case False
      with reparent_root [OF assms(1), of b] 3 show ?thesis by auto
    qed
  qed
  then show ?thesis
    by (auto simp: sameTree_def allChildrenPresent_def)
qed

theorem reparent_guards_leave_tree_witness:
  "distinct (ids (Node ''root'' ''R'' (Some [Node ''y'' ''Y'' (Some [Node ''x'' ''X'' (Some [])])])))
   \<and> descendantOf (Node ''root'' ''R'' (Some [Node ''y'' ''Y'' (Some [Node ''x'' ''X'' (Some [])])])) ''y'' ''x''
   \<and> handleReparentNode (Node ''root'' ''R'' (Some [Node ''y'' ''Y'' (Some [Node ''x'' ''X'' (Some [])])])) ''y'' ''x''
       = Node ''root'' ''R'' (Some [Node ''y'' ''Y'' (Some [Node ''x'' ''X'' (Some [])])])"
  using reparent_guards_leave_tree [of "Node ''root'' ''R'' (Some [Node ''y'' ''Y'' (Some [Node ''x'' ''X'' (Some [])])])" "''y''" "''x''"]
  by (simp add: ids_Node subtrees_Node descendantOf_def)

subsection \<open>The move\<close>

text \<open>
  C3. On a tree with unique ids, when the guards pass (\<open>a \<noteq> b\<close>, \<open>a\<close> is not
  \<^verbatim>\<open>root\<close>, \<open>a\<close> names the node \<open>n\<close>, \<open>b\<close> is not in the subtree of \<open>n\<close>) and \<open>b\<close> names
  a node, \<^verbatim>\<open>handleReparentNode\<close> keeps the root and the collection of ids, keeps the subtree
  \<open>n\<close> of \<open>a\<close> as it was, takes \<open>a\<close> out of the children of every node with the order of
  the remaining children kept, and puts \<open>a\<close> last among the children of \<open>b\<close>; the text of
  every node is unchanged. The \<^verbatim>\<open>setData\<close> callback of \<^verbatim>\<open>handleMouseUp\<close> computes the
  same tree.
\<close>

theorem reparent_moves_subtree:
  assumes "distinct (ids T)" and "a \<noteq> b" and "a \<noteq> ''root''" and "findNode T a = Some n"
    and "\<not> isDescendant n b" and "b \<in> set (ids T)"
  shows "nid (handleReparentNode T a b) = nid T
       \<and> mset (ids (handleReparentNode T a b)) = mset (ids T)
       \<and> findNode (handleReparentNode T a b) a = Some n
       \<and> (\<forall>c. childIds (handleReparentNode T a b) c
               = filter (\<lambda>k. k \<noteq> a) (childIds T c) @ (if c = b then [a] else []))
       \<and> (\<forall>c. textOf (handleReparentNode T a b) c = textOf T c)
       \<and> dropNode (Some T) a b = Some (handleReparentNode T a b)"
proof -
  from assms have "handleReparentNode T a b = addNode (removeNode T a) b n"
    and "dropNode (Some T) a b = Some (addNode (removeNode T a) b n)"
    by (simp_all add: handleReparentNode_def dropNode_def)
  with reparent_structure [OF assms(1,2,4,5,6)] show ?thesis by simp
qed

theorem reparent_moves_subtree_witness:
  "distinct (ids (Node ''root'' ''R'' (Some [Node ''p'' ''P'' (Some [Node ''s'' ''S'' None,
       Node ''a'' ''A'' (Some [Node ''a1'' ''A1'' None]), Node ''u'' ''U'' None]),
       Node ''b'' ''B'' (Some [Node ''b1'' ''B1'' None])])))
   \<and> findNode (Node ''root'' ''R'' (Some [Node ''p'' ''P'' (Some [Node ''s'' ''S'' None,
       Node ''a'' ''A'' (Some [Node ''a1'' ''A1'' None]), Node ''u'' ''U'' None]),
       Node ''b'' ''B'' (Some [Node ''b1'' ''B1'' None])])) ''a''
       = Some (Node ''a'' ''A'' (Some [Node ''a1'' ''A1'' None]))
   \<and> childIds (handleReparentNode (Node ''root'' ''R'' (Some [Node ''p'' ''P'' (Some [Node ''s'' ''S'' None,
       Node ''a'' ''A'' (Some [Node ''a1'' ''A1'' None]), Node ''u'' ''U'' None]),
       Node ''b'' ''B'' (Some [Node ''b1'' ''B1'' None])])) ''a'' ''b'') ''b'' = [''b1'', ''a'']
   \<and> childIds (handleReparentNode (Node ''root'' ''R'' (Some [Node ''p'' ''P'' (Some [Node ''s'' ''S'' None,
       Node ''a'' ''A'' (Some [Node ''a1'' ''A1'' None]), Node ''u'' ''U'' None]),
       Node ''b'' ''B'' (Some [Node ''b1'' ''B1'' None])])) ''a'' ''b'') ''p'' = [''s'', ''u'']"
  using reparent_moves_subtree [of "Node ''root'' ''R'' (Some [Node ''p'' ''P'' (Some [Node ''s'' ''S'' None,
       Node ''a'' ''A'' (Some [Node ''a1'' ''A1'' None]), Node ''u'' ''U'' None]),
       Node ''b'' ''B'' (Some [Node ''b1'' ''B1'' None])])" "''a''" "''b''"
       "Node ''a'' ''A'' (Some [Node ''a1'' ''A1'' None])"]
  by (simp add: ids_Node findNode.simps isDescendant.simps childIds_def handleReparentNode_def
        removeNode.simps addNode.simps)

section \<open>Nodes without a children property\<close>

text \<open>
  C9. Every operation on the tree reads the children through \<^verbatim>\<open>node.children || []\<close>,
  so none of them has a failing branch, and each is a terminating recursion. A missing
  children list is treated as an empty one: on two trees that differ only in missing
  versus empty children arrays, \<^verbatim>\<open>findNode\<close> finds corresponding nodes, \<^verbatim>\<open>isDescendant\<close>
  gives the same answer, the layout is the same map, and renaming and reparenting give
  trees that again differ only in that representation.
\<close>

theorem missing_children_as_empty:
  assumes "sameTree T1 T2"
  shows "map_option normalise (findNode T1 i) = map_option normalise (findNode T2 i)
       \<and> isDescendant T1 p = isDescendant T2 p
       \<and> nodePositions T1 = nodePositions T2
       \<and> sameTree (updateRecursively i t T1) (updateRecursively i t T2)
       \<and> sameTree (handleReparentNode T1 a b) (handleReparentNode T2 a b)"
proof -
  from assms have eq: "normalise T1 = normalise T2" by (simp add: sameTree_def)
  have "map_option normalise (findNode T1 i) = map_option normalise (findNode T2 i)"
    using findNode_normalise [of T1 i] findNode_normalise [of T2 i] eq by simp
  moreover have "isDescendant T1 p = isDescendant T2 p"
    using isDescendant_normalise [of T1 p] isDescendant_normalise [of T2 p] eq by simp
  moreover have "nodePositions T1 = nodePositions T2"
    using calculatePositions_normalise(1) [of T1 0 0 Map.empty]
      calculatePositions_normalise(1) [of T2 0 0 Map.empty] eq
    by (simp add: nodePositions_def)
  moreover have "sameTree (updateRecursively i t T1) (updateRecursively i t T2)"
    by (simp add: sameTree_def updateRecursively_normalise eq)
  moreover have "sameTree (handleReparentNode T1 a b) (handleReparentNode T2 a b)"
    by (simp add: sameTree_def handleReparentNode_normalise eq)
  ultimately show ?thesis by blast
qed

theorem missing_children_as_empty_witness:
  "sameTree (Node ''root'' ''R'' (Some [Node ''a'' ''A'' None, Node ''b'' ''B'' None]))
            (Node ''root'' ''R'' (Some [Node ''a'' ''A'' (Some []), Node ''b'' ''B'' (Some [])]))
   \<and> sameTree (handleReparentNode (Node ''root'' ''R'' (Some [Node ''a'' ''A'' None, Node ''b'' ''B'' None])) ''a'' ''b'')
              (Node ''root'' ''R'' (Some [Node ''b'' ''B'' (Some [Node ''a'' ''A'' (Some [])])]))"
  using missing_children_as_empty [of "Node ''root'' ''R'' (Some [Node ''a'' ''A'' None, Node ''b'' ''B'' None])"
      "Node ''root'' ''R'' (Some [Node ''a'' ''A'' (Some []), Node ''b'' ''B'' (Some [])])" "''a''" "''b''" "''t''" "''a''" "''b''"]
  by (simp add: sameTree_def normalise.simps handleReparentNode_def findNode.simps isDescendant.simps
        removeNode.simps addNode.simps)

section \<open>Committing and cancelling an edit\<close>




text \<open>In the final version of the editor an edit starts from the text of the node.\<close>

lemma handleNodeDoubleClick_resets_draft:
  "findNode T i = Some n \<Longrightarrow>
   editedText (handleNodeDoubleClick i (s\<lparr>data := Some T\<rparr>)) = ntext n"
  by (simp add: handleNodeDoubleClick_def findNode_nullable_def Let_def)




section \<open>One gesture at a time\<close>

text \<open>
  C4. The claim: in every state reachable from the idle state at most one of panning,
  dragging and editing is in progress, and a new drag or edit first commits or cancels
  the gesture in progress. The final version of the editor does this when a pan starts
  (\<^verbatim>\<open>handleBackgroundMouseDown\<close> saves the edit and clears \<^verbatim>\<open>editingId\<close>) and when an
  edit starts (\<^verbatim>\<open>handleNodeDoubleClick\<close> replaces a drag), but not when a drag starts:
  \<^verbatim>\<open>handleNodeMouseDown\<close> leaves \<^verbatim>\<open>editingId\<close> and the draft as they are. After a
  double click on \<open>a\<close>, typing, and a mouse down on \<open>b\<close>, a drag and an edit are in progress
  together and the draft is neither committed nor discarded. In the first version, which
  has no blur handler, the same two events leave \<^verbatim>\<open>editingId\<close> and \<^verbatim>\<open>draggingNodeId\<close>
  both set.
\<close>

theorem drag_starts_while_editing:
  "activeGestures (run (initialState (Some (Node ''root'' ''R''
        (Some [Node ''a'' ''A'' (Some []), Node ''b'' ''B'' (Some [])]))))
      [NodeDoubleClick ''a'', TextChange ''draft'', NodeMouseDown (0, 0) ''b''])
     = [Dragging, Editing]
   \<and> editingId (run (initialState (Some (Node ''root'' ''R''
        (Some [Node ''a'' ''A'' (Some []), Node ''b'' ''B'' (Some [])]))))
      [NodeDoubleClick ''a'', TextChange ''draft'', NodeMouseDown (0, 0) ''b'']) = Some ''a''
   \<and> editedText (run (initialState (Some (Node ''root'' ''R''
        (Some [Node ''a'' ''A'' (Some []), Node ''b'' ''B'' (Some [])]))))
      [NodeDoubleClick ''a'', TextChange ''draft'', NodeMouseDown (0, 0) ''b'']) = ''draft''
   \<and> data (run (initialState (Some (Node ''root'' ''R''
        (Some [Node ''a'' ''A'' (Some []), Node ''b'' ''B'' (Some [])]))))
      [NodeDoubleClick ''a'', TextChange ''draft'', NodeMouseDown (0, 0) ''b''])
     = Some (Node ''root'' ''R'' (Some [Node ''a'' ''A'' (Some []), Node ''b'' ''B'' (Some [])]))
   \<and> handleNodeMouseDown_1 ''b'' (onStartEdit ''a''
        \<lparr>g_editingId = None, g_draggingNodeId = None, g_dropTargetId = None, g_isPanning = False\<rparr>)
     = \<lparr>g_editingId = Some ''a'', g_draggingNodeId = Some ''b'', g_dropTargetId = None,
        g_isPanning = False\<rparr>"
  by (simp add: run_def initialState_def handleNodeDoubleClick_def handleNodeMouseDown_def
        activeGestures_def findNode_nullable_def findNode.simps Let_def
        handleNodeMouseDown_1_def onStartEdit_def)

section \<open>Layout\<close>

lemma calculatePositions_fold:
  "calculatePositions n l y ps = fold setPosition (calls n l y) ps"
  "calculatePositions_forEach cs l cy ps = fold setPosition (calls_forEach cs l cy) ps"
proof (induction n l y ps and cs l cy ps rule: calculatePositions_calculatePositions_forEach.induct)
  case (1 n level parentY positions)
  have step: "positions(nid n \<mapsto> \<lparr>pos_x = real level * (NODE_WIDTH + H_SPACING), pos_y = parentY\<rparr>)
                = setPosition (n, level, parentY) positions"
    by (simp add: setPosition_def)
  show ?case
    unfolding calculatePositions.simps [of n level parentY positions]
      calls.simps [of n level parentY] Let_def
    by (simp only: fold_simps flip: step) (rule 1 [OF refl refl refl refl refl])
next
  case (2 level currentY positions)
  then show ?case by simp
next
  case (3 child rest level currentY positions)
  then show ?case by (simp add: Let_def)
qed

lemma calls_withDepth:
  "map (\<lambda>c. (fst (snd c), fst c)) (calls n l y) = withDepth l n"
  "map (\<lambda>c. (fst (snd c), fst c)) (calls_forEach cs l cy) = concat (map (withDepth (Suc l)) cs)"
proof (induction n l y and cs l cy rule: calls_calls_forEach.induct)
  case (1 n level parentY)
  then show ?case by (simp add: calls.simps [of n] withDepth.simps [of _ n])
qed simp_all

lemma withDepth_subtrees: "map snd (withDepth d n) = subtrees n"
proof (induction d n rule: withDepth.induct)
  case (1 d n)
  have kids: "concat (map (map snd \<circ> withDepth (Suc d)) (childrenOrEmpty n))
                = concat (map subtrees (childrenOrEmpty n))"
    by (rule arg_cong [where f = concat], rule map_cong [OF refl]) (simp add: 1)
  show ?case
    by (simp add: withDepth.simps [of d n] subtrees.simps [of n] map_concat kids)
qed

lemma calls_subtrees: "map fst (calls n l y) = subtrees n"
proof -
  have "map snd (map (\<lambda>c. (fst (snd c), fst c)) (calls n l y)) = subtrees n"
    by (simp only: calls_withDepth withDepth_subtrees)
  then show ?thesis by (simp add: comp_def)
qed

lemma calls_closed:
  "c \<in> set (calls n l y) \<Longrightarrow> set (calls (fst c) (fst (snd c)) (snd (snd c))) \<subseteq> set (calls n l y)"
  "c \<in> set (calls_forEach cs l cy) \<Longrightarrow>
     set (calls (fst c) (fst (snd c)) (snd (snd c))) \<subseteq> set (calls_forEach cs l cy)"
proof (induction n l y and cs l cy rule: calls_calls_forEach.induct)
  case (1 n level parentY)
  show ?case
  proof (cases "c = (n, level, parentY)")
    case True
    then show ?thesis by simp
  next
    case False
    with 1 show ?thesis by (auto simp: calls.simps [of n])
  qed
next
  case (2 level currentY)
  then show ?case by simp
next
  case (3 child rest level currentY)
  then show ?case by auto
qed

lemma setPosition_apply:
  "setPosition c ps k =
     (if k = nid (fst c)
      then Some \<lparr>pos_x = real (fst (snd c)) * (NODE_WIDTH + H_SPACING), pos_y = snd (snd c)\<rparr>
      else ps k)"
  by (simp add: setPosition_def)

lemma fold_setPosition_notin:
  "k \<notin> nid ` fst ` set xs \<Longrightarrow> fold setPosition xs ps k = ps k"
  by (induction xs arbitrary: ps) (auto simp: setPosition_def)

lemma fold_setPosition_lookup:
  "distinct (map (\<lambda>c. nid (fst c)) xs) \<Longrightarrow> c \<in> set xs \<Longrightarrow>
   fold setPosition xs ps (nid (fst c)) =
     Some \<lparr>pos_x = real (fst (snd c)) * (NODE_WIDTH + H_SPACING), pos_y = snd (snd c)\<rparr>"
proof (induction xs arbitrary: ps)
  case Nil
  then show ?case by simp
next
  case (Cons x xs)
  show ?case
  proof (cases "c = x")
    case True
    with Cons.prems have "nid (fst c) \<notin> nid ` fst ` set xs" by (auto simp: image_iff)
    then have a: "fold setPosition xs (setPosition x ps) (nid (fst c)) = setPosition x ps (nid (fst c))"
      by (rule fold_setPosition_notin)
    have b: "setPosition x ps (nid (fst c)) =
        Some \<lparr>pos_x = real (fst (snd c)) * (NODE_WIDTH + H_SPACING), pos_y = snd (snd c)\<rparr>"
      unfolding True by (simp add: setPosition_apply)
    show ?thesis by (simp only: fold_simps comp_apply a b)
  next
    case False
    with Cons show ?thesis by simp
  qed
qed

lemma nodePositions_lookup:
  assumes "distinct (ids T)" and "(m, d, y) \<in> set (calls T 0 0)"
  shows "nodePositions T (nid m) = Some \<lparr>pos_x = real d * (NODE_WIDTH + H_SPACING), pos_y = y\<rparr>"
proof -
  have "map (\<lambda>c. nid (fst c)) (calls T 0 0) = map nid (map fst (calls T 0 0))"
    by (simp add: comp_def)
  then have "map (\<lambda>c. nid (fst c)) (calls T 0 0) = ids T"
    by (simp only: calls_subtrees ids_def)
  with assms(1) have "distinct (map (\<lambda>c. nid (fst c)) (calls T 0 0))" by simp
  from fold_setPosition_lookup [OF this assms(2)] show ?thesis
    by (simp add: nodePositions_def calculatePositions_fold)
qed

lemma calls_middle_child:
  assumes "childrenOrEmpty m = [c0, c1, c2]"
  shows "(c1, Suc d, y) \<in> set (calls m d y)"
  by (simp add: calls.simps [of m] calls.simps [of c1] assms totalChildHeight_def NODE_HEIGHT_def V_SPACING_def)

text \<open>
  C7. Under the horizontal layout a node at tree depth \<open>d\<close> is placed at
  \<open>x = d * (NODE_WIDTH + H_SPACING)\<close>, the root gets \<open>y = 0\<close>, and in a parent with
  exactly three children the middle child gets the \<open>y\<close> of the parent. The positions are
  keyed by node id, so the ids of the tree are taken to be unique, as the data model says;
  \<open>(d, m)\<close> in \<open>withDepth 0 T\<close> says that \<open>m\<close> is a node of \<open>T\<close> at depth \<open>d\<close>.
\<close>

theorem layout_horizontal:
  assumes "distinct (ids T)" and "(d, m) \<in> set (withDepth 0 T)"
  shows "(\<exists>y. nodePositions T (nid m)
               = Some \<lparr>pos_x = real d * (NODE_WIDTH + H_SPACING), pos_y = y\<rparr>
            \<and> (\<forall>c0 c1 c2. childrenOrEmpty m = [c0, c1, c2] \<longrightarrow>
                 (\<exists>q. nodePositions T (nid c1) = Some q \<and> pos_y q = y)))
       \<and> nodePositions T (nid T) = Some \<lparr>pos_x = 0, pos_y = 0\<rparr>"
proof
  from assms(2) obtain c where c: "c \<in> set (calls T 0 0)" "(d, m) = (fst (snd c), fst c)"
    unfolding calls_withDepth(1) [of T 0 0, symmetric] by auto
  from c(2) have "(m, d, snd (snd c)) = c" by simp
  with c(1) have "(m, d, snd (snd c)) \<in> set (calls T 0 0)" by simp
  then obtain y where call: "(m, d, y) \<in> set (calls T 0 0)" ..
  have mid: "\<exists>q. nodePositions T (nid c1) = Some q \<and> pos_y q = y"
    if kids: "childrenOrEmpty m = [c0, c1, c2]" for c0 c1 c2
  proof -
    have "(c1, Suc d, y) \<in> set (calls T 0 0)"
      using calls_closed(1) [OF call] calls_middle_child [OF kids, of d y] by auto
    from nodePositions_lookup [OF assms(1) this] show ?thesis by simp
  qed
  from nodePositions_lookup [OF assms(1) call] mid
  show "\<exists>y. nodePositions T (nid m)
               = Some \<lparr>pos_x = real d * (NODE_WIDTH + H_SPACING), pos_y = y\<rparr>
            \<and> (\<forall>c0 c1 c2. childrenOrEmpty m = [c0, c1, c2] \<longrightarrow>
                 (\<exists>q. nodePositions T (nid c1) = Some q \<and> pos_y q = y))"
    by blast
next
  have "(T, 0, 0) \<in> set (calls T 0 0)" by (simp add: calls.simps [of T])
  from nodePositions_lookup [OF assms(1) this]
  show "nodePositions T (nid T) = Some \<lparr>pos_x = 0, pos_y = 0\<rparr>" by simp
qed

theorem layout_horizontal_witness:
  "distinct (ids (Node ''root'' ''R'' (Some [Node ''a'' ''A'' None,
       Node ''b'' ''B'' (Some [Node ''b1'' ''B1'' None]), Node ''c'' ''C'' None])))
   \<and> (2, Node ''b1'' ''B1'' None) \<in> set (withDepth 0 (Node ''root'' ''R'' (Some [Node ''a'' ''A'' None,
       Node ''b'' ''B'' (Some [Node ''b1'' ''B1'' None]), Node ''c'' ''C'' None])))
   \<and> (\<exists>y. nodePositions (Node ''root'' ''R'' (Some [Node ''a'' ''A'' None,
       Node ''b'' ''B'' (Some [Node ''b1'' ''B1'' None]), Node ''c'' ''C'' None])) ''b1''
         = Some \<lparr>pos_x = 2 * (NODE_WIDTH + H_SPACING), pos_y = y\<rparr>)
   \<and> (\<exists>q. nodePositions (Node ''root'' ''R'' (Some [Node ''a'' ''A'' None,
       Node ''b'' ''B'' (Some [Node ''b1'' ''B1'' None]), Node ''c'' ''C'' None])) ''b''
         = Some q \<and> pos_y q = 0)"
  using layout_horizontal [of "Node ''root'' ''R'' (Some [Node ''a'' ''A'' None,
       Node ''b'' ''B'' (Some [Node ''b1'' ''B1'' None]), Node ''c'' ''C'' None])"
       2 "Node ''b1'' ''B1'' None"]
    layout_horizontal [of "Node ''root'' ''R'' (Some [Node ''a'' ''A'' None,
       Node ''b'' ''B'' (Some [Node ''b1'' ''B1'' None]), Node ''c'' ''C'' None])"
       0 "Node ''root'' ''R'' (Some [Node ''a'' ''A'' None,
       Node ''b'' ''B'' (Some [Node ''b1'' ''B1'' None]), Node ''c'' ''C'' None])"]
  by (auto simp: ids_Node withDepth_Node)

subsection \<open>The empty sibling group\<close>

lemma calculatePositions_computeLayout:
  "calculatePositions n l y ps = computeLayout n l y ps"
  "calculatePositions_forEach cs l cy ps = computeLayout_group cs l cy ps"
proof (induction n l y ps and cs l cy ps rule: calculatePositions_calculatePositions_forEach.induct)
  case (1 n level parentY positions)
  show ?case
  proof (cases "childrenOrEmpty n = []")
    case True
    then show ?thesis
      by (simp add: calculatePositions.simps [of n] computeLayout.simps [of n] Let_def)
  next
    case False
    then have eq: "groupHeight (childrenOrEmpty n) = totalChildHeight (childrenOrEmpty n)"
      by (simp add: groupHeight_def totalChildHeight_def)
    show ?thesis
      unfolding calculatePositions.simps [of n level parentY positions]
        computeLayout.simps [of n level parentY positions] Let_def eq
      by (rule 1 [OF refl refl refl refl refl])
  qed
next
  case (2 level currentY positions)
  then show ?case by simp
next
  case (3 child rest level currentY positions)
  then show ?case by (simp add: Let_def)
qed


text \<open>
  C8, as the claim states it, fails: for a node with an empty children list the height
  that \<^verbatim>\<open>calculatePositions\<close> computes for the group is \<open>- V_SPACING = - 30\<close>, not 0.
\<close>

theorem empty_group_height_negative:
  "totalChildHeight (childrenOrEmpty (Node ''a'' ''A'' (Some []))) = - 30
   \<and> totalChildHeight (childrenOrEmpty (Node ''a'' ''A'' (Some []))) < 0"
  by (simp add: totalChildHeight_def V_SPACING_def)

text \<open>
  C8, amended. For an empty children list the height formula of \<^verbatim>\<open>calculatePositions\<close>
  yields \<open>- V_SPACING\<close>; the value only offsets the start of a loop that runs zero times,
  so the layout is the one obtained when an empty group has height 0: the node itself is
  placed at its level and \<^verbatim>\<open>parentY\<close>, and no position of any node is affected.
\<close>

theorem empty_group_no_effect:
  "totalChildHeight [] = - V_SPACING
   \<and> calculatePositions n level parentY positions = computeLayout n level parentY positions
   \<and> calculatePositions (Node i t (Some [])) level parentY positions
       = positions(i \<mapsto> \<lparr>pos_x = real level * (NODE_WIDTH + H_SPACING), pos_y = parentY\<rparr>)"
  by (simp add: totalChildHeight_def calculatePositions.simps Let_def
        flip: calculatePositions_computeLayout(1))

section \<open>Viewport\<close>

text \<open>
  C5. Zooming with the wheel at a client point keeps the logical point under the pointer
  fixed: converting the point with the viewBox after \<^verbatim>\<open>handleWheel\<close> gives the point it
  had before. Numbers are exact reals here; the bounding rectangle of the svg has a
  width and a height other than 0.
\<close>

theorem zoom_anchor_fixed:
  assumes "rect_width r \<noteq> 0" and "rect_height r \<noteq> 0"
  shows "screenToLogical (clientX e, clientY e) r (handleWheel v e r)
           = screenToLogical (clientX e, clientY e) r v"
  using assms by (simp add: screenToLogical_def handleWheel_def Let_def)

theorem zoom_anchor_fixed_witness:
  "rect_width \<lparr>rect_top = 10, rect_left = 20, rect_width = 500, rect_height = 400\<rparr> \<noteq> 0
   \<and> rect_height \<lparr>rect_top = 10, rect_left = 20, rect_width = 500, rect_height = 400\<rparr> \<noteq> 0
   \<and> screenToLogical (120, 110) \<lparr>rect_top = 10, rect_left = 20, rect_width = 500, rect_height = 400\<rparr>
        (handleWheel \<lparr>vb_x = -200, vb_y = -400, vb_width = 1000, vb_height = 800\<rparr>
           \<lparr>clientX = 120, clientY = 110, deltaY = -1\<rparr>
           \<lparr>rect_top = 10, rect_left = 20, rect_width = 500, rect_height = 400\<rparr>)
       = (0, -200)"
  using zoom_anchor_fixed [of "\<lparr>rect_top = 10, rect_left = 20, rect_width = 500, rect_height = 400\<rparr>"
      "\<lparr>clientX = 120, clientY = 110, deltaY = -1\<rparr>"
      "\<lparr>vb_x = -200, vb_y = -400, vb_width = 1000, vb_height = 800\<rparr>"]
  by (simp add: screenToLogical_def)

lemma applyViewportOp_ratio:
  "vb_height v \<noteq> 0 \<Longrightarrow> vb_height (applyViewportOp v op) \<noteq> 0 \<and>
   vb_width (applyViewportOp v op) / vb_height (applyViewportOp v op) = vb_width v / vb_height v"
  by (cases op) (simp_all add: handleWheel_def Let_def panViewBox_def)

lemma applyViewportOps_ratio:
  "vb_height v \<noteq> 0 \<Longrightarrow> vb_height (applyViewportOps v ops) \<noteq> 0 \<and>
   vb_width (applyViewportOps v ops) / vb_height (applyViewportOps v ops) = vb_width v / vb_height v"
  unfolding applyViewportOps_def
proof (induction ops arbitrary: v)
  case Nil
  then show ?case by simp
next
  case (Cons op ops)
  from applyViewportOp_ratio [OF Cons.prems, of op] Cons.IH [of "applyViewportOp v op"]
  show ?case by simp
qed

lemma dispatch_ratio:
  assumes "vb_height (viewBox s) \<noteq> 0"
  shows "vb_height (viewBox (dispatch s ev)) \<noteq> 0 \<and>
         vb_width (viewBox (dispatch s ev)) / vb_height (viewBox (dispatch s ev))
           = vb_width (viewBox s) / vb_height (viewBox s)"
proof (cases ev)
  case (MouseMove c clientWidth pt)
  then show ?thesis
    using assms
    by (simp add: handleMouseMove_def panViewBox_def Let_def
          split: interaction.splits option.splits)
next
  case (Wheel e r)
  then show ?thesis using assms by (simp add: handleWheel_def Let_def)
qed (use assms in \<open>simp_all add: handleNodeMouseDown_def handleNodeDoubleClick_def
      handleBackgroundMouseDown_def handleMouseUp_def handleTextBlur_def Let_def
      split: interaction.splits option.splits\<close>)

lemma run_ratio:
  "vb_height (viewBox s) \<noteq> 0 \<Longrightarrow>
   vb_height (viewBox (run s es)) \<noteq> 0 \<and>
   vb_width (viewBox (run s es)) / vb_height (viewBox (run s es))
     = vb_width (viewBox s) / vb_height (viewBox s)"
  unfolding run_def
proof (induction es arbitrary: s)
  case Nil
  then show ?case by simp
next
  case (Cons ev es)
  from dispatch_ratio [OF Cons.prems, of ev] Cons.IH [of "dispatch s ev"]
  show ?case by simp
qed

subsection \<open>Rounding to a double\<close>

lemma bitLength_0: "bitLength 0 = 0"
  by (subst bitLength.simps) simp

lemma bitLength_pos: "0 < n \<Longrightarrow> bitLength n = Suc (bitLength (n div 2))"
  by (subst bitLength.simps) simp

lemma bitLength_numeral:
  "bitLength (numeral k) = Suc (bitLength (numeral k div 2))"
  "bitLength 1 = 1"
  "bitLength (Suc 0) = 1"
  by (simp_all add: bitLength_pos bitLength_0)

lemma bitLength_bounds: "0 < n \<Longrightarrow> 2 ^ (bitLength n - 1) \<le> n \<and> n < 2 ^ bitLength n"
proof (induction n rule: bitLength.induct)
  case (1 n)
  show ?case
  proof (cases "n div 2 = 0")
    case True
    with 1(2) have "n = 1" by (simp add: div_eq_0_iff) 
    then show ?thesis by (simp add: bitLength_numeral)
  next
    case False
    with 1 have IH: "2 ^ (bitLength (n div 2) - 1) \<le> n div 2" "n div 2 < 2 ^ bitLength (n div 2)"
      by simp_all
    have pos: "0 < bitLength (n div 2)" using False bitLength_pos [of "n div 2"] by simp
    have eq: "bitLength n = Suc (bitLength (n div 2))" using 1(2) by (rule bitLength_pos)
    from pos have "(2::nat) ^ bitLength (n div 2) = 2 * 2 ^ (bitLength (n div 2) - 1)"
      by (cases "bitLength (n div 2)") simp_all
    with IH(1) have "2 ^ bitLength (n div 2) \<le> 2 * (n div 2)" by simp
    also have "\<dots> \<le> n" by simp
    finally have low: "2 ^ (bitLength n - 1) \<le> n" by (simp add: eq)
    from IH(2) have "Suc (n div 2) \<le> 2 ^ bitLength (n div 2)" by simp
    then have "2 * Suc (n div 2) \<le> 2 ^ bitLength n" by (simp add: eq)
    moreover have "n < 2 * Suc (n div 2)" by simp
    ultimately have "n < 2 ^ bitLength n" by linarith
    with low show ?thesis by simp
  qed
qed

lemma binaryExponent_bounds:
  assumes "x \<noteq> 0"
  shows "2 powi (binaryExponent x) \<le> \<bar>x\<bar>" and "\<bar>x\<bar> < 2 powi (binaryExponent x + 1)"
proof -
  define a where "a = \<bar>x\<bar>"
  have apos: "0 < a" using assms by (simp add: a_def)
  have "2 powi (binaryExponent x) \<le> a \<and> a < 2 powi (binaryExponent x + 1)"
  proof (cases "1 \<le> a")
    case True
    define n where "n = nat \<lfloor>a\<rfloor>"
    have n: "0 < n" using True by (simp add: n_def)
    have na: "real n \<le> a" "a < real n + 1" using True by (simp_all add: n_def)
    have e: "binaryExponent x = int (bitLength n) - 1"
      using True by (simp add: binaryExponent_def a_def n_def)
    from bitLength_bounds [OF n] have b: "2 ^ (bitLength n - 1) \<le> n" "n < 2 ^ bitLength n"
      by simp_all
    have bpos: "0 < bitLength n" using n by (simp add: bitLength_pos)
    have p1: "(2::real) powi (int (bitLength n) - 1) = 2 ^ (bitLength n - 1)"
      using bpos by (simp add: power_int_def nat_diff_distrib')
    have p2: "(2::real) powi (int (bitLength n) - 1 + 1) = 2 ^ bitLength n"
      by (simp add: power_int_def)
    from b(1) have "real (2 ^ (bitLength n - 1)) \<le> real n"
      by (simp only: of_nat_le_iff)
    then have "(2::real) ^ (bitLength n - 1) \<le> real n" by simp
    with na(1) have l: "(2::real) ^ (bitLength n - 1) \<le> a" by linarith
    from b(2) have "n + 1 \<le> 2 ^ bitLength n" by simp
    then have "real (n + 1) \<le> real (2 ^ bitLength n)"
      by (simp only: of_nat_le_iff)
    then have "real n + 1 \<le> 2 ^ bitLength n" by simp
    with na(2) have u: "a < 2 ^ bitLength n" by linarith
    from l u show ?thesis by (simp only: e p1 p2)
  next
    case False
    define y where "y = 1 / a"
    have y: "1 < y" using False apos by (simp add: y_def)
    define m where "m = nat (\<lceil>y\<rceil> - 1)"
    have cy: "2 \<le> \<lceil>y\<rceil>" using y by linarith
    then have m: "0 < m" by (simp add: m_def)
    have my: "real m < y" "y \<le> real m + 1" using cy by (simp_all add: m_def) linarith+
    define k where "k = bitLength m"
    have e: "binaryExponent x = - int k"
      using False by (simp add: binaryExponent_def a_def m_def y_def k_def)
    from bitLength_bounds [OF m] have b: "2 ^ (k - 1) \<le> m" "m < 2 ^ k"
      by (simp_all add: k_def)
    have kpos: "0 < k" using m by (simp add: k_def bitLength_pos)
    from b(2) have "m + 1 \<le> 2 ^ k" by simp
    then have "real (m + 1) \<le> real (2 ^ k)"
      by (simp only: of_nat_le_iff)
    then have "real m + 1 \<le> 2 ^ k" by simp
    with my(2) have yk: "y \<le> 2 ^ k" by linarith
    from b(1) have "real (2 ^ (k - 1)) \<le> real m"
      by (simp only: of_nat_le_iff)
    then have "(2::real) ^ (k - 1) \<le> real m" by simp
    with my(1) have ky: "2 ^ (k - 1) < y" by linarith
    have p1: "(2::real) powi (- int k) = 1 / 2 ^ k"
      by (simp add: power_int_def field_simps)
    have p2: "(2::real) powi (- int k + 1) = 1 / 2 ^ (k - 1)"
      using kpos by (cases k) (simp_all add: power_int_def field_simps nat_diff_distrib')
    have l: "1 / 2 ^ k \<le> a" using yk apos by (simp add: y_def field_simps)
    have u: "a < 1 / 2 ^ (k - 1)" using ky apos by (simp add: y_def field_simps)
    from l u show ?thesis by (simp only: e p1 p2)
  qed
  then show "2 powi (binaryExponent x) \<le> \<bar>x\<bar>" and "\<bar>x\<bar> < 2 powi (binaryExponent x + 1)"
    by (simp_all add: a_def)
qed

lemma binaryExponent_eqI:
  assumes "2 powi e \<le> \<bar>x\<bar>" and "\<bar>x\<bar> < 2 powi (e + 1)"
  shows "binaryExponent x = e"
proof -
  have "0 < (2::real) powi e" by simp
  with assms(1) have "0 < \<bar>x\<bar>" by linarith
  then have "x \<noteq> 0" by simp
  from binaryExponent_bounds [OF this]
  have b: "2 powi (binaryExponent x) \<le> \<bar>x\<bar>" "\<bar>x\<bar> < 2 powi (binaryExponent x + 1)" .
  from assms(1) b(2) have "(2::real) powi e < 2 powi (binaryExponent x + 1)" by linarith
  then have 1: "e < binaryExponent x + 1"
    using power_int_increasing [of "binaryExponent x + 1" e "2::real"] by (cases "e < binaryExponent x + 1") simp_all
  from b(1) assms(2) have "(2::real) powi (binaryExponent x) < 2 powi (e + 1)" by linarith
  then have 2: "binaryExponent x < e + 1"
    using power_int_increasing [of "e + 1" "binaryExponent x" "2::real"] by (cases "binaryExponent x < e + 1") simp_all
  from 1 2 show ?thesis by simp
qed

lemma exponent64_normal:
  assumes "2 powi (- 1022) \<le> \<bar>x\<bar>"
  shows "exponent64 x = binaryExponent x"
proof -
  have "0 < (2::real) powi (- 1022)" by simp
  with assms have "0 < \<bar>x\<bar>" by linarith
  then have "x \<noteq> 0" by simp
  from binaryExponent_bounds(2) [OF this] assms
  have "(2::real) powi (- 1022) < 2 powi (binaryExponent x + 1)" by linarith
  then have "- 1022 < binaryExponent x + 1"
    using power_int_increasing [of "binaryExponent x + 1" "- 1022" "2::real"]
    by (cases "- 1022 < binaryExponent x + 1") simp_all
  then show ?thesis by (simp add: exponent64_def)
qed

lemma exponent64_eqI:
  assumes "2 powi e \<le> \<bar>x\<bar>" and "\<bar>x\<bar> < 2 powi (e + 1)" and "- 1022 \<le> e"
  shows "exponent64 x = e"
  using binaryExponent_eqI [OF assms(1,2)] assms(3) by (simp add: exponent64_def)

lemma roundTiesToEven_error: "\<bar>of_int (roundTiesToEven r) - r\<bar> \<le> 1 / 2"
  unfolding roundTiesToEven_def Let_def by (auto; linarith)

lemma round64_eval:
  assumes "2 powi e \<le> \<bar>x\<bar>" and "\<bar>x\<bar> < 2 powi (e + 1)" and "- 1022 \<le> e"
  shows "round64 x = of_int (roundTiesToEven (x * 2 powi (52 - e))) * 2 powi (e - 52)"
proof -
  have "0 < (2::real) powi e" by simp
  with assms(1) have "0 < \<bar>x\<bar>" by linarith
  then have "x \<noteq> 0" by simp
  with exponent64_eqI [OF assms] show ?thesis by (simp add: round64_def)
qed


lemma zoomFactor64_value: "zoomFactor64 = 4953959590107546 / 2 ^ 52"
  unfolding zoomFactor64_def
  by (subst round64_eval [where e = 0]) (simp_all add: roundTiesToEven_def power_int_def power_one_over)

lemma mul64_1000: "mul64 1000 zoomFactor64 = 1100"
  unfolding mul64_def zoomFactor64_value
  by (subst round64_eval [where e = 10]) (simp_all add: roundTiesToEven_def power_int_def power_one_over)

lemma mul64_800: "mul64 800 zoomFactor64 = 880 + 1 / 2 ^ 43"
  unfolding mul64_def zoomFactor64_value
  by (subst round64_eval [where e = 9]) (simp_all add: roundTiesToEven_def power_int_def power_one_over)

lemma div64_ratio: "div64 1100 (880 + 1 / 2 ^ 43) = 5 / 4 - 1 / 2 ^ 52"
  unfolding div64_def
  by (subst round64_eval [where e = 0]) (simp_all add: roundTiesToEven_def power_int_def power_one_over)

lemma div64_ratio0: "div64 1000 800 = 5 / 4"
  unfolding div64_def
  by (subst round64_eval [where e = 0]) (simp_all add: roundTiesToEven_def power_int_def power_one_over)

lemma round64_error:
  assumes "2 powi (- 1022) \<le> \<bar>x\<bar>"
  shows "\<bar>round64 x - x\<bar> \<le> \<bar>x\<bar> / 2 ^ 53"
proof -
  have "0 < (2::real) powi (- 1022)" by simp
  with assms have "0 < \<bar>x\<bar>" by linarith
  then have False: "x \<noteq> 0" by simp
  define e where "e = exponent64 x"
  have be: "e = binaryExponent x" unfolding e_def using assms by (rule exponent64_normal)
  define s :: real where "s = 2 powi (52 - e)"
  define t :: real where "t = 2 powi (e - 52)"
  have s: "0 < s" by (simp add: s_def)
  have st: "s * t = 1"
    unfolding s_def t_def by (simp flip: power_int_add)
  have t: "t = 2 powi e / 2 ^ 52"
    unfolding t_def by (simp add: power_int_diff)
  have r: "round64 x = of_int (roundTiesToEven (x * s)) * t"
    using False by (simp add: round64_def e_def s_def t_def)
  have "round64 x - x = (of_int (roundTiesToEven (x * s)) - x * s) * t"
    using st by (simp add: r algebra_simps)
  then have "\<bar>round64 x - x\<bar> = \<bar>of_int (roundTiesToEven (x * s)) - x * s\<bar> * t"
    using s st by (simp add: abs_mult t_def)
  also have "\<dots> \<le> 1 / 2 * t"
    using roundTiesToEven_error [of "x * s"] by (intro mult_right_mono) (simp_all add: t_def)
  also have "\<dots> = 2 powi e / 2 ^ 53" by (simp add: t)
  also have "\<dots> \<le> \<bar>x\<bar> / 2 ^ 53"
    using binaryExponent_bounds(1) [OF False] by (simp add: be divide_right_mono)
  finally show ?thesis .
qed

lemma round64_ratio:
  assumes ra: "2 powi (- 1022) \<le> \<bar>a\<bar>" and rb: "2 powi (- 1022) \<le> \<bar>b\<bar>"
  shows "\<bar>round64 a / round64 b - a / b\<bar> \<le> \<bar>a / b\<bar> * (2 / (2 ^ 53 - 1))"
proof -
  define u :: real where "u = 1 / 2 ^ 53"
  define da where "da = round64 a - a"
  define db where "db = round64 b - b"
  have u: "0 < u" "u < 1" by (simp_all add: u_def)
  have da: "\<bar>da\<bar> \<le> \<bar>a\<bar> * u" using round64_error [OF ra] by (simp add: da_def u_def)
  have db: "\<bar>db\<bar> \<le> \<bar>b\<bar> * u" using round64_error [OF rb] by (simp add: db_def u_def)
  have "0 < (2::real) powi (- 1022)" by simp
  with rb have bpos: "0 < \<bar>b\<bar>" by linarith
  then have assms: "b \<noteq> 0" by simp
  have "\<bar>b\<bar> * u < \<bar>b\<bar>" using u bpos by simp
  with db have lt: "\<bar>db\<bar> < \<bar>b\<bar>" by linarith
  then have nz: "b + db \<noteq> 0" by auto
  have low: "\<bar>b\<bar> * (1 - u) \<le> \<bar>b + db\<bar>" using db by (simp add: algebra_simps)
  have lowpos: "0 < \<bar>b\<bar> * (1 - u)" using u bpos by simp
  have "round64 a / round64 b - a / b = (a + da) / (b + db) - a / b"
    by (simp add: da_def db_def)
  also have "\<dots> = (da * b - a * db) / ((b + db) * b)"
    using nz assms by (simp add: field_simps)
  finally have "\<bar>round64 a / round64 b - a / b\<bar> = \<bar>da * b - a * db\<bar> / (\<bar>b + db\<bar> * \<bar>b\<bar>)"
    by (simp add: abs_mult)
  also have "\<dots> \<le> (2 * \<bar>a\<bar> * \<bar>b\<bar> * u) / (\<bar>b + db\<bar> * \<bar>b\<bar>)"
  proof (rule divide_right_mono)
    have "\<bar>da * b - a * db\<bar> \<le> \<bar>da * b\<bar> + \<bar>a * db\<bar>"
      by (rule abs_triangle_ineq4)
    then have "\<bar>da * b - a * db\<bar> \<le> \<bar>da\<bar> * \<bar>b\<bar> + \<bar>a\<bar> * \<bar>db\<bar>"
      by (simp only: abs_mult)
    also have "\<dots> \<le> (\<bar>a\<bar> * u) * \<bar>b\<bar> + \<bar>a\<bar> * (\<bar>b\<bar> * u)"
      using da db by (intro add_mono mult_right_mono mult_left_mono) simp_all
    finally show "\<bar>da * b - a * db\<bar> \<le> 2 * \<bar>a\<bar> * \<bar>b\<bar> * u" by (simp add: algebra_simps)
    show "0 \<le> \<bar>b + db\<bar> * \<bar>b\<bar>" by simp
  qed
  also have "\<dots> \<le> (2 * \<bar>a\<bar> * \<bar>b\<bar> * u) / ((\<bar>b\<bar> * (1 - u)) * \<bar>b\<bar>)"
  proof (rule divide_left_mono)
    show "\<bar>b\<bar> * (1 - u) * \<bar>b\<bar> \<le> \<bar>b + db\<bar> * \<bar>b\<bar>" using low by (intro mult_right_mono) simp_all
    show "0 \<le> 2 * \<bar>a\<bar> * \<bar>b\<bar> * u" using u by simp
    show "0 < \<bar>b + db\<bar> * \<bar>b\<bar> * (\<bar>b\<bar> * (1 - u) * \<bar>b\<bar>)" using nz bpos lowpos by simp
  qed
  also have "\<dots> = \<bar>a / b\<bar> * (2 * u / (1 - u))"
  proof -
    have "(2 * A * B * u) / ((B * (1 - u)) * B) = A / B * (2 * u / (1 - u))"
      if "0 < B" for A B :: real
      using that u by (simp add: field_simps)
    from this [OF bpos] show ?thesis by (simp only: abs_divide)
  qed
  also have "2 * u / (1 - u) = 2 / (2 ^ 53 - 1)"
    by (simp add: u_def field_simps)
  finally show ?thesis .
qed



lemma zoomFactor64_pos: "0 < zoomFactor64"
  by (simp add: zoomFactor64_value)

lemma round64_nonzero:
  assumes "2 powi (- 1022) \<le> \<bar>x\<bar>"
  shows "round64 x \<noteq> 0"
proof
  assume "round64 x = 0"
  with round64_error [OF assms] have "\<bar>x\<bar> \<le> \<bar>x\<bar> / 2 ^ 53" by simp
  moreover have "0 < (2::real) powi (- 1022)" by simp
  with assms have "0 < \<bar>x\<bar>" by linarith
  then have "\<bar>x\<bar> / 2 ^ 53 < \<bar>x\<bar>" by simp
  ultimately show False by simp
qed

lemma handleWheel64_sizes:
  "vb_width (handleWheel64 v e r) = round64 (scaled (vb_width v) e)"
  "vb_height (handleWheel64 v e r) = round64 (scaled (vb_height v) e)"
  by (simp_all add: handleWheel64_def Let_def scaled_def mul64_def div64_def)

lemma panViewBox64_sizes:
  "vb_width (panViewBox64 v panStart c clientWidth) = vb_width v"
  "vb_height (panViewBox64 v panStart c clientWidth) = vb_height v"
  by (simp_all add: panViewBox64_def Let_def)

lemma scaled_ratio: "scaled w e / scaled h e = w / h"
  using zoomFactor64_pos by (simp add: scaled_def)

lemma handleWheel64_ratio:
  assumes "inRange64 (scaled (vb_width v) e)" and "inRange64 (scaled (vb_height v) e)"
  shows "vb_height (handleWheel64 v e r) \<noteq> 0"
    and "\<bar>vb_width (handleWheel64 v e r) / vb_height (handleWheel64 v e r)
           - vb_width v / vb_height v\<bar>
         \<le> \<bar>vb_width v / vb_height v\<bar> * (2 / (2 ^ 53 - 1))"
proof -
  from assms have rw: "2 powi (- 1022) \<le> \<bar>scaled (vb_width v) e\<bar>"
    and rh: "2 powi (- 1022) \<le> \<bar>scaled (vb_height v) e\<bar>"
    by (simp_all add: inRange64_def)
  from rh show "vb_height (handleWheel64 v e r) \<noteq> 0"
    by (simp only: handleWheel64_sizes round64_nonzero not_False_eq_True)
  from round64_ratio [OF rw rh]
  show "\<bar>vb_width (handleWheel64 v e r) / vb_height (handleWheel64 v e r)
           - vb_width v / vb_height v\<bar>
         \<le> \<bar>vb_width v / vb_height v\<bar> * (2 / (2 ^ 53 - 1))"
    by (simp only: handleWheel64_sizes scaled_ratio)
qed

lemma ratio_chain:
  fixes R0 R1 Rf d eps :: real
  assumes "\<bar>R1 - R0\<bar> \<le> \<bar>R0\<bar> * d" and "\<bar>Rf - R1\<bar> \<le> \<bar>R1\<bar> * ((1 + eps) ^ k - 1)"
    and "0 \<le> d" and "0 \<le> eps"
  shows "\<bar>Rf - R0\<bar> \<le> \<bar>R0\<bar> * ((1 + d) * (1 + eps) ^ k - 1)"
proof -
  have p: "0 \<le> (1 + eps) ^ k - 1" using assms(4) by (simp add: one_le_power)
  have "\<bar>R1\<bar> \<le> \<bar>R0\<bar> + \<bar>R1 - R0\<bar>" by linarith
  with assms(1) have "\<bar>R1\<bar> \<le> \<bar>R0\<bar> * (1 + d)" by (simp add: algebra_simps)
  then have "\<bar>R1\<bar> * ((1 + eps) ^ k - 1) \<le> \<bar>R0\<bar> * (1 + d) * ((1 + eps) ^ k - 1)"
    using p by (rule mult_right_mono)
  moreover have "\<bar>Rf - R0\<bar> \<le> \<bar>Rf - R1\<bar> + \<bar>R1 - R0\<bar>" by linarith
  ultimately have "\<bar>Rf - R0\<bar> \<le> \<bar>R0\<bar> * (1 + d) * ((1 + eps) ^ k - 1) + \<bar>R0\<bar> * d"
    using assms(1,2) by linarith
  also have "\<dots> = \<bar>R0\<bar> * ((1 + d) * (1 + eps) ^ k - 1)" by (simp add: algebra_simps)
  finally show ?thesis .
qed

lemma applyViewportOps64_ratio:
  "vb_height v \<noteq> 0 \<Longrightarrow> zoomsInRange v ops \<Longrightarrow>
   vb_height (applyViewportOps64 v ops) \<noteq> 0 \<and>
   \<bar>vb_width (applyViewportOps64 v ops) / vb_height (applyViewportOps64 v ops)
      - vb_width v / vb_height v\<bar>
     \<le> \<bar>vb_width v / vb_height v\<bar> * ((1 + 2 / (2 ^ 53 - 1)) ^ zooms ops - 1)"
  unfolding applyViewportOps64_def
proof (induction ops arbitrary: v)
  case Nil
  then show ?case by simp
next
  case (Cons op ops)
  show ?case
  proof (cases op)
    case (Pan panStart c clientWidth)
    have h: "vb_height (panViewBox64 v panStart c clientWidth) \<noteq> 0"
      using Cons.prems(1) by (simp add: panViewBox64_sizes)
    have z: "zoomsInRange (panViewBox64 v panStart c clientWidth) ops"
      using Cons.prems(2) by (simp add: Pan)
    from Cons.IH [OF h z] show ?thesis
      by (simp add: Pan panViewBox64_sizes)
  next
    case (Zoom e r)
    from Cons.prems(2) have rg: "inRange64 (scaled (vb_width v) e)"
      "inRange64 (scaled (vb_height v) e)"
      and z: "zoomsInRange (handleWheel64 v e r) ops"
      by (simp_all add: Zoom)
    from handleWheel64_ratio [OF rg, of r]
    have h: "vb_height (handleWheel64 v e r) \<noteq> 0"
      and step: "\<bar>vb_width (handleWheel64 v e r) / vb_height (handleWheel64 v e r)
           - vb_width v / vb_height v\<bar>
         \<le> \<bar>vb_width v / vb_height v\<bar> * (2 / (2 ^ 53 - 1))"
      by simp_all
    from Cons.IH [OF h z]
    have nz: "vb_height (foldl applyViewportOp64 (handleWheel64 v e r) ops) \<noteq> 0"
      and rest: "\<bar>vb_width (foldl applyViewportOp64 (handleWheel64 v e r) ops)
             / vb_height (foldl applyViewportOp64 (handleWheel64 v e r) ops)
           - vb_width (handleWheel64 v e r) / vb_height (handleWheel64 v e r)\<bar>
         \<le> \<bar>vb_width (handleWheel64 v e r) / vb_height (handleWheel64 v e r)\<bar>
             * ((1 + 2 / (2 ^ 53 - 1)) ^ zooms ops - 1)"
      by simp_all
    from ratio_chain [OF step rest] nz show ?thesis
      by (simp add: Zoom)
  qed
qed


subsection \<open>The aspect ratio\<close>

text \<open>
  C10, as the claim states it, fails in the arithmetic of the source: the new width and
  the new height of a zoom are rounded to a double each, and the two roundings need not
  agree. One wheel event with a positive \<^verbatim>\<open>deltaY\<close> on the initial viewBox of 1000 by 800
  gives the width 1100 and the height \<open>880 + 1 / 2 ^ 43\<close> (printed as
  880.0000000000001): the ratio of width to height is no longer 5/4, also when it is
  computed as a double (\<open>5 / 4 - 1 / 2 ^ 52\<close>, printed as 1.2499999999999998).
\<close>

theorem zoom_rounds_width_and_height_apart:
  "vb_width (handleWheel64 \<lparr>vb_x = -200, vb_y = -400, vb_width = 1000, vb_height = 800\<rparr>
        \<lparr>clientX = 500, clientY = 400, deltaY = 100\<rparr>
        \<lparr>rect_top = 0, rect_left = 0, rect_width = 1000, rect_height = 800\<rparr>) = 1100
   \<and> vb_height (handleWheel64 \<lparr>vb_x = -200, vb_y = -400, vb_width = 1000, vb_height = 800\<rparr>
        \<lparr>clientX = 500, clientY = 400, deltaY = 100\<rparr>
        \<lparr>rect_top = 0, rect_left = 0, rect_width = 1000, rect_height = 800\<rparr>) = 880 + 1 / 2 ^ 43
   \<and> vb_width (handleWheel64 \<lparr>vb_x = -200, vb_y = -400, vb_width = 1000, vb_height = 800\<rparr>
        \<lparr>clientX = 500, clientY = 400, deltaY = 100\<rparr>
        \<lparr>rect_top = 0, rect_left = 0, rect_width = 1000, rect_height = 800\<rparr>)
       / vb_height (handleWheel64 \<lparr>vb_x = -200, vb_y = -400, vb_width = 1000, vb_height = 800\<rparr>
        \<lparr>clientX = 500, clientY = 400, deltaY = 100\<rparr>
        \<lparr>rect_top = 0, rect_left = 0, rect_width = 1000, rect_height = 800\<rparr>)
     \<noteq> vb_width \<lparr>vb_x = -200, vb_y = -400, vb_width = 1000, vb_height = 800\<rparr>
       / vb_height \<lparr>vb_x = -200, vb_y = -400, vb_width = 1000, vb_height = 800\<rparr>
   \<and> div64 (vb_width \<lparr>vb_x = -200, vb_y = -400, vb_width = 1000, vb_height = 800\<rparr>)
         (vb_height \<lparr>vb_x = -200, vb_y = -400, vb_width = 1000, vb_height = 800\<rparr>) = 5 / 4
   \<and> div64 (vb_width (handleWheel64 \<lparr>vb_x = -200, vb_y = -400, vb_width = 1000, vb_height = 800\<rparr>
        \<lparr>clientX = 500, clientY = 400, deltaY = 100\<rparr>
        \<lparr>rect_top = 0, rect_left = 0, rect_width = 1000, rect_height = 800\<rparr>))
         (vb_height (handleWheel64 \<lparr>vb_x = -200, vb_y = -400, vb_width = 1000, vb_height = 800\<rparr>
        \<lparr>clientX = 500, clientY = 400, deltaY = 100\<rparr>
        \<lparr>rect_top = 0, rect_left = 0, rect_width = 1000, rect_height = 800\<rparr>))
     = 5 / 4 - 1 / 2 ^ 52"
proof -
  have w: "vb_width (handleWheel64 \<lparr>vb_x = -200, vb_y = -400, vb_width = 1000, vb_height = 800\<rparr>
        \<lparr>clientX = 500, clientY = 400, deltaY = 100\<rparr>
        \<lparr>rect_top = 0, rect_left = 0, rect_width = 1000, rect_height = 800\<rparr>) = 1100"
    by (simp add: handleWheel64_sizes scaled_def mul64_1000 [unfolded mul64_def])
  have h: "vb_height (handleWheel64 \<lparr>vb_x = -200, vb_y = -400, vb_width = 1000, vb_height = 800\<rparr>
        \<lparr>clientX = 500, clientY = 400, deltaY = 100\<rparr>
        \<lparr>rect_top = 0, rect_left = 0, rect_width = 1000, rect_height = 800\<rparr>) = 880 + 1 / 2 ^ 43"
    by (simp add: handleWheel64_sizes scaled_def mul64_800 [unfolded mul64_def])
  have ne: "vb_width (handleWheel64 \<lparr>vb_x = -200, vb_y = -400, vb_width = 1000, vb_height = 800\<rparr>
        \<lparr>clientX = 500, clientY = 400, deltaY = 100\<rparr>
        \<lparr>rect_top = 0, rect_left = 0, rect_width = 1000, rect_height = 800\<rparr>)
       / vb_height (handleWheel64 \<lparr>vb_x = -200, vb_y = -400, vb_width = 1000, vb_height = 800\<rparr>
        \<lparr>clientX = 500, clientY = 400, deltaY = 100\<rparr>
        \<lparr>rect_top = 0, rect_left = 0, rect_width = 1000, rect_height = 800\<rparr>)
     \<noteq> vb_width \<lparr>vb_x = -200, vb_y = -400, vb_width = 1000, vb_height = 800\<rparr>
       / vb_height \<lparr>vb_x = -200, vb_y = -400, vb_width = 1000, vb_height = 800\<rparr>"
    unfolding w h by simp
  have d0: "div64 (vb_width \<lparr>vb_x = -200, vb_y = -400, vb_width = 1000, vb_height = 800\<rparr>)
         (vb_height \<lparr>vb_x = -200, vb_y = -400, vb_width = 1000, vb_height = 800\<rparr>) = 5 / 4"
    by (simp add: div64_ratio0)
  have d: "div64 (vb_width (handleWheel64 \<lparr>vb_x = -200, vb_y = -400, vb_width = 1000, vb_height = 800\<rparr>
        \<lparr>clientX = 500, clientY = 400, deltaY = 100\<rparr>
        \<lparr>rect_top = 0, rect_left = 0, rect_width = 1000, rect_height = 800\<rparr>))
         (vb_height (handleWheel64 \<lparr>vb_x = -200, vb_y = -400, vb_width = 1000, vb_height = 800\<rparr>
        \<lparr>clientX = 500, clientY = 400, deltaY = 100\<rparr>
        \<lparr>rect_top = 0, rect_left = 0, rect_width = 1000, rect_height = 800\<rparr>))
     = 5 / 4 - 1 / 2 ^ 52"
    unfolding w h by (rule div64_ratio)
  from w h ne d0 d show ?thesis by blast
qed

text \<open>
  C10, amended. A pan changes only \<open>x\<close> and \<open>y\<close> of the viewBox: width and height are
  left as they are, also in double arithmetic. A zoom divides (wheel up) or multiplies
  (wheel down) width and height by the same factor, the double nearest to 1.1, and
  rounds each result to a double. So the ratio of width to height of a viewBox with a
  height other than 0 is invariant up to rounding: after a sequence of pans and zooms
  that stays in the normal range of the doubles it differs from the ratio before by at
  most the relative error \<open>(1 + 2 / (2 ^ 53 - 1)) ^ k - 1\<close>, where \<open>k\<close> is the number
  of zooms in the sequence (by nothing for \<open>k = 0\<close>). In exact arithmetic, where
  nothing is rounded, the ratio is the same after any sequence of pans and zooms, and
  after any sequence of events of the editor.
\<close>

theorem aspect_ratio_up_to_rounding:
  assumes "vb_height v \<noteq> 0" and "zoomsInRange v ops"
  shows "vb_width (panViewBox64 v panStart c clientWidth) = vb_width v
       \<and> vb_height (panViewBox64 v panStart c clientWidth) = vb_height v
       \<and> vb_width (handleWheel64 v e r)
           = (if deltaY e < 0 then div64 (vb_width v) zoomFactor64
              else mul64 (vb_width v) zoomFactor64)
       \<and> vb_height (handleWheel64 v e r)
           = (if deltaY e < 0 then div64 (vb_height v) zoomFactor64
              else mul64 (vb_height v) zoomFactor64)
       \<and> \<bar>vb_width (applyViewportOps64 v ops) / vb_height (applyViewportOps64 v ops)
            - vb_width v / vb_height v\<bar>
           \<le> \<bar>vb_width v / vb_height v\<bar> * ((1 + 2 / (2 ^ 53 - 1)) ^ zooms ops - 1)
       \<and> vb_width (panViewBox v panStart c clientWidth) = vb_width v
       \<and> vb_height (panViewBox v panStart c clientWidth) = vb_height v
       \<and> vb_width (handleWheel v e r)
           = (if deltaY e < 0 then vb_width v / 1.1 else vb_width v * 1.1)
       \<and> vb_height (handleWheel v e r)
           = (if deltaY e < 0 then vb_height v / 1.1 else vb_height v * 1.1)
       \<and> vb_width (applyViewportOps v ops) / vb_height (applyViewportOps v ops)
           = vb_width v / vb_height v
       \<and> vb_width (viewBox (run (s\<lparr>viewBox := v\<rparr>) es))
             / vb_height (viewBox (run (s\<lparr>viewBox := v\<rparr>) es))
           = vb_width v / vb_height v"
proof -
  have pan64: "vb_width (panViewBox64 v panStart c clientWidth) = vb_width v"
    "vb_height (panViewBox64 v panStart c clientWidth) = vb_height v"
    by (simp_all add: panViewBox64_sizes)
  have zoom64: "vb_width (handleWheel64 v e r)
           = (if deltaY e < 0 then div64 (vb_width v) zoomFactor64
              else mul64 (vb_width v) zoomFactor64)"
    "vb_height (handleWheel64 v e r)
           = (if deltaY e < 0 then div64 (vb_height v) zoomFactor64
              else mul64 (vb_height v) zoomFactor64)"
    by (simp_all add: handleWheel64_def Let_def)
  have exact: "vb_width (panViewBox v panStart c clientWidth) = vb_width v"
    "vb_height (panViewBox v panStart c clientWidth) = vb_height v"
    "vb_width (handleWheel v e r)
           = (if deltaY e < 0 then vb_width v / 1.1 else vb_width v * 1.1)"
    "vb_height (handleWheel v e r)
           = (if deltaY e < 0 then vb_height v / 1.1 else vb_height v * 1.1)"
    by (simp_all add: panViewBox_def handleWheel_def Let_def)
  have run: "vb_width (viewBox (run (s\<lparr>viewBox := v\<rparr>) es))
             / vb_height (viewBox (run (s\<lparr>viewBox := v\<rparr>) es))
           = vb_width v / vb_height v"
    using run_ratio [of "s\<lparr>viewBox := v\<rparr>" es] assms(1) by simp
  from pan64 zoom64 exact run applyViewportOps64_ratio [OF assms]
    applyViewportOps_ratio [OF assms(1), of ops]
  show ?thesis by blast
qed

theorem aspect_ratio_up_to_rounding_witness:
  "vb_height \<lparr>vb_x = -200, vb_y = -400, vb_width = 1000, vb_height = 800\<rparr> \<noteq> 0
   \<and> zoomsInRange \<lparr>vb_x = -200, vb_y = -400, vb_width = 1000, vb_height = 800\<rparr>
        [Pan (0, 0) (10, 5) 500,
         Zoom \<lparr>clientX = 500, clientY = 400, deltaY = 100\<rparr>
              \<lparr>rect_top = 0, rect_left = 0, rect_width = 1000, rect_height = 800\<rparr>]
   \<and> \<bar>vb_width (applyViewportOps64 \<lparr>vb_x = -200, vb_y = -400, vb_width = 1000, vb_height = 800\<rparr>
        [Pan (0, 0) (10, 5) 500,
         Zoom \<lparr>clientX = 500, clientY = 400, deltaY = 100\<rparr>
              \<lparr>rect_top = 0, rect_left = 0, rect_width = 1000, rect_height = 800\<rparr>])
      / vb_height (applyViewportOps64 \<lparr>vb_x = -200, vb_y = -400, vb_width = 1000, vb_height = 800\<rparr>
        [Pan (0, 0) (10, 5) 500,
         Zoom \<lparr>clientX = 500, clientY = 400, deltaY = 100\<rparr>
              \<lparr>rect_top = 0, rect_left = 0, rect_width = 1000, rect_height = 800\<rparr>])
      - 5 / 4\<bar> \<le> 5 / 4 * (2 / (2 ^ 53 - 1))
   \<and> vb_width (applyViewportOps \<lparr>vb_x = -200, vb_y = -400, vb_width = 1000, vb_height = 800\<rparr>
        [Pan (0, 0) (10, 5) 500,
         Zoom \<lparr>clientX = 500, clientY = 400, deltaY = 100\<rparr>
              \<lparr>rect_top = 0, rect_left = 0, rect_width = 1000, rect_height = 800\<rparr>])
      / vb_height (applyViewportOps \<lparr>vb_x = -200, vb_y = -400, vb_width = 1000, vb_height = 800\<rparr>
        [Pan (0, 0) (10, 5) 500,
         Zoom \<lparr>clientX = 500, clientY = 400, deltaY = 100\<rparr>
              \<lparr>rect_top = 0, rect_left = 0, rect_width = 1000, rect_height = 800\<rparr>])
     = 5 / 4"
proof -
  have h1: "vb_height \<lparr>vb_x = -200, vb_y = -400, vb_width = 1000, vb_height = 800\<rparr> \<noteq> 0"
    by simp
  have h2: "zoomsInRange \<lparr>vb_x = -200, vb_y = -400, vb_width = 1000, vb_height = 800\<rparr>
        [Pan (0, 0) (10, 5) 500,
         Zoom \<lparr>clientX = 500, clientY = 400, deltaY = 100\<rparr>
              \<lparr>rect_top = 0, rect_left = 0, rect_width = 1000, rect_height = 800\<rparr>]"
    by (simp add: panViewBox64_sizes scaled_def zoomFactor64_value inRange64_def
          power_int_def power_one_over)
  from aspect_ratio_up_to_rounding [OF h1 h2, of "(0, 0)" "(0, 0)" 1
      "\<lparr>clientX = 0, clientY = 0, deltaY = 0\<rparr>"
      "\<lparr>rect_top = 0, rect_left = 0, rect_width = 1, rect_height = 1\<rparr>"
      "initialState None" "[]"] h1 h2
  show ?thesis by simp
qed

end
